theory Spec2Isabelle
  imports Complex_Main "HOL-Library.Word" "HOL-Library.AList"
begin

unbundle bit_operations_syntax

section \<open>Core types (types.ts)\<close>

text \<open>
  \<^verbatim>\<open>type Cell = 0 | 1 | -1\<close>: 0 is empty, 1 is black, -1 is white. The source negates a
  cell arithmetically (\<^verbatim>\<open>-color as Cell\<close>); \<open>negate\<close> is that negation.
\<close>

datatype cell = Empty | Black | White

fun negate :: "cell \<Rightarrow> cell" where
  "negate Empty = Empty"
| "negate Black = White"
| "negate White = Black"

text \<open>
  \<^verbatim>\<open>type Board = Cell[][]\<close>, read as \<^verbatim>\<open>board[r][c]\<close>. Coordinates are JavaScript
  numbers; the engine steps them by \<open>-1\<close>, \<open>0\<close> or \<open>1\<close>, so they are \<open>int\<close> here.
  Every read of the source that is modelled by \<open>cellAt\<close> stands behind the source's own
  bounds test \<^verbatim>\<open>nr >= 0 && nr < 8 && nc >= 0 && nc < 8\<close> or inside a loop over
  \<open>0..7\<close>; on an 8x8 board (\<open>valid_board\<close>) it is therefore in range.
\<close>

type_synonym board = "cell list list"

text \<open>\<^verbatim>\<open>type Move = { r: number; c: number } | null\<close>\<close>

type_synonym move = "(int \<times> int) option"

definition cellAt :: "board \<Rightarrow> int \<Rightarrow> int \<Rightarrow> cell" where
  "cellAt b r c = b ! nat r ! nat c"

definition valid_board :: "board \<Rightarrow> bool" where
  "valid_board b \<longleftrightarrow> length b = 8 \<and> list_all (\<lambda>row. length row = 8) b"

definition onBoard :: "int \<Rightarrow> int \<Rightarrow> bool" where
  "onBoard r c \<longleftrightarrow> 0 \<le> r \<and> r < 8 \<and> 0 \<le> c \<and> c < 8"

section \<open>Board logic (board.ts)\<close>

definition createStartingBoard :: board where
  "createStartingBoard =
     (let board = replicate 8 (replicate 8 Empty);
          board = board[3 := (board ! 3)[3 := Black]];
          board = board[3 := (board ! 3)[4 := White]];
          board = board[4 := (board ! 4)[3 := White]];
          board = board[4 := (board ! 4)[4 := Black]]
      in board)"

text \<open>The table of the eight ray directions, as every function of the source spells it.\<close>

definition directions :: "(int \<times> int) list" where
  "directions = [(-1, -1), (-1, 0), (-1, 1), (0, -1), (0, 1), (1, -1), (1, 0), (1, 1)]"

text \<open>
  The while loop of \<^verbatim>\<open>hasFlipsInDirection\<close>: walk over opponent discs, remembering whether
  one was seen. The source calls it with the entries of \<open>directions\<close> only, none of which
  is \<open>(0, 0)\<close>; the last conjunct of the loop test is true at every such call and makes
  the recursion total for the other values of the parameters.
\<close>

function scanOpponent ::
  "board \<Rightarrow> cell \<Rightarrow> int \<Rightarrow> int \<Rightarrow> int \<Rightarrow> int \<Rightarrow> bool \<Rightarrow> bool \<times> int \<times> int" where
  "scanOpponent b opponent dr dc nr nc hasOpponent =
     (if onBoard nr nc \<and> cellAt b nr nc = opponent \<and> (dr, dc) \<noteq> (0, 0)
      then scanOpponent b opponent dr dc (nr + dr) (nc + dc) True
      else (hasOpponent, nr, nc))"
  by pat_completeness auto
termination
  by (relation "measure (\<lambda>(b, opponent, dr, dc, nr, nc, h).
        if 0 < dr then nat (8 - nr) else if dr < 0 then nat (nr + 1)
        else if 0 < dc then nat (8 - nc) else nat (nc + 1))")
     (auto simp: onBoard_def)

declare scanOpponent.simps [simp del]

definition hasFlipsInDirection ::
  "board \<Rightarrow> int \<Rightarrow> int \<Rightarrow> int \<Rightarrow> int \<Rightarrow> cell \<Rightarrow> bool" where
  "hasFlipsInDirection b r c dr dc color =
     (case scanOpponent b (negate color) dr dc (r + dr) (c + dc) False of
        (hasOpponent, nr, nc) \<Rightarrow> hasOpponent \<and> onBoard nr nc \<and> cellAt b nr nc = color)"

text \<open>
  \<^verbatim>\<open>generateLegalMoves\<close>: the two nested loops over \<open>r\<close> and \<open>c\<close> push \<^verbatim>\<open>{ r, c }\<close> for
  every empty square that has a flipping direction (the inner loop with its
  \<^verbatim>\<open>break\<close> is \<open>list_ex\<close>).
\<close>

definition generateLegalMoves :: "board \<Rightarrow> cell \<Rightarrow> move list" where
  "generateLegalMoves b color =
     (if color = Empty then []
      else [Some (r, c). r \<leftarrow> [0..7], c \<leftarrow> [0..7], cellAt b r c = Empty,
              list_ex (\<lambda>(dr, dc). hasFlipsInDirection b r c dr dc color) directions])"

text \<open>
  The while loop of \<^verbatim>\<open>getFlipsInDirection\<close> (and, with the same text, of
  \<^verbatim>\<open>getFlippedPositions\<close> in search.ts): collect the opponent discs walked over.
\<close>

function collectOpponent ::
  "board \<Rightarrow> cell \<Rightarrow> int \<Rightarrow> int \<Rightarrow> int \<Rightarrow> int \<Rightarrow> (int \<times> int) list
     \<Rightarrow> (int \<times> int) list \<times> int \<times> int" where
  "collectOpponent b opponent dr dc nr nc flips =
     (if onBoard nr nc \<and> cellAt b nr nc = opponent \<and> (dr, dc) \<noteq> (0, 0)
      then collectOpponent b opponent dr dc (nr + dr) (nc + dc) (flips @ [(nr, nc)])
      else (flips, nr, nc))"
  by pat_completeness auto
termination
  by (relation "measure (\<lambda>(b, opponent, dr, dc, nr, nc, h).
        if 0 < dr then nat (8 - nr) else if dr < 0 then nat (nr + 1)
        else if 0 < dc then nat (8 - nc) else nat (nc + 1))")
     (auto simp: onBoard_def)

declare collectOpponent.simps [simp del]

definition getFlipsInDirection ::
  "board \<Rightarrow> int \<Rightarrow> int \<Rightarrow> int \<Rightarrow> int \<Rightarrow> cell \<Rightarrow> (int \<times> int) list" where
  "getFlipsInDirection b r c dr dc color =
     (case collectOpponent b (negate color) dr dc (r + dr) (c + dc) [] of
        (flips, nr, nc) \<Rightarrow> if onBoard nr nc \<and> cellAt b nr nc = color then flips else [])"

text \<open>
  \<^verbatim>\<open>newBoard[r][c] = color\<close>. The embedding covers squares on the board: the moves of
  \<open>generateLegalMoves\<close> and the squares the flip loops return are such squares.
\<close>

definition setCell :: "board \<Rightarrow> int \<Rightarrow> int \<Rightarrow> cell \<Rightarrow> board" where
  "setCell b r c v = b[nat r := (b ! nat r)[nat c := v]]"

text \<open>The object \<^verbatim>\<open>{ board, flips }\<close> that \<^verbatim>\<open>applyMove\<close> returns.\<close>

record move_result =
  mr_board :: board
  mr_flips :: nat

text \<open>
  \<^verbatim>\<open>applyMove\<close>: a pass returns a copy of the board (the same value) and 0; otherwise the
  disc is placed on the copy and, direction by direction, the flips are read from the
  \<^emph>\<open>input\<close> board and written to the copy.
\<close>

definition applyMove :: "board \<Rightarrow> move \<Rightarrow> cell \<Rightarrow> move_result" where
  "applyMove b move color =
     (case move of
        None \<Rightarrow> \<lparr>mr_board = b, mr_flips = 0\<rparr>
      | Some (r, c) \<Rightarrow>
          (case foldl (\<lambda>(newBoard, totalFlips) (dr, dc).
                   let flipsInDirection = getFlipsInDirection b r c dr dc color
                   in (foldl (\<lambda>nb (fr, fc). setCell nb fr fc color) newBoard flipsInDirection,
                       totalFlips + length flipsInDirection))
                 (setCell b r c color, 0) directions of
             (newBoard, totalFlips) \<Rightarrow> \<lparr>mr_board = newBoard, mr_flips = totalFlips\<rparr>))"

text \<open>Row-major order on moves: by row, then by column; a pass is below and above nothing.\<close>

fun rowMajorLess :: "move \<Rightarrow> move \<Rightarrow> bool" where
  "rowMajorLess (Some (r1, c1)) (Some (r2, c2)) \<longleftrightarrow> r1 < r2 \<or> (r1 = r2 \<and> c1 < c2)"
| "rowMajorLess _ _ \<longleftrightarrow> False"

subsection \<open>Algebraic notation\<close>

text \<open>
  A JavaScript number as far as \<^verbatim>\<open>algebraicToMove\<close> needs it: an integer, or \<open>NaN\<close>
  (what \<^verbatim>\<open>parseInt\<close> returns on text that does not start with a digit). Arithmetic on
  \<open>NaN\<close> gives \<open>NaN\<close>; every comparison with \<open>NaN\<close> is false.
\<close>

datatype jsnum = Num int | NaN

fun jsMinus :: "jsnum \<Rightarrow> int \<Rightarrow> jsnum" where
  "jsMinus (Num n) k = Num (n - k)"
| "jsMinus NaN k = NaN"

fun jsLess :: "jsnum \<Rightarrow> int \<Rightarrow> bool" where
  "jsLess (Num n) k \<longleftrightarrow> n < k"
| "jsLess NaN k \<longleftrightarrow> False"

fun jsGreater :: "jsnum \<Rightarrow> int \<Rightarrow> bool" where
  "jsGreater (Num n) k \<longleftrightarrow> n > k"
| "jsGreater NaN k \<longleftrightarrow> False"

text \<open>\<^verbatim>\<open>Number.prototype.toString\<close> on an integer: its decimal digits, with a sign.\<close>

fun natToString :: "nat \<Rightarrow> string" where
  "natToString n =
     (if n < 10 then [char_of (48 + int n)]
      else natToString (n div 10) @ [char_of (48 + int (n mod 10))])"

declare natToString.simps [simp del]

definition toString :: "int \<Rightarrow> string" where
  "toString n = (if n < 0 then CHR ''-'' # natToString (nat (- n)) else natToString (nat n))"

text \<open>\<^verbatim>\<open>String.fromCharCode(97 + move.c)\<close> is \<open>char_of (97 + c)\<close>.\<close>

definition moveToAlgebraic :: "move \<Rightarrow> string" where
  "moveToAlgebraic move =
     (case move of
        None \<Rightarrow> ''pass''
      | Some (r, c) \<Rightarrow> (let col = [char_of (97 + c)]; row = toString (r + 1) in col @ row))"

text \<open>
  \<^verbatim>\<open>parseInt\<close> on the one-character strings \<^verbatim>\<open>algebraic[1]\<close> that the source passes: the
  digit's value, and \<open>NaN\<close> for every other character (a sign or a blank alone is no
  number).
\<close>

definition parseInt :: "string \<Rightarrow> jsnum" where
  "parseInt s =
     (case s of
        [ch] \<Rightarrow> if (48::int) \<le> of_char ch \<and> of_char ch \<le> (57::int)
                then Num (of_char ch - 48) else NaN
      | _ \<Rightarrow> NaN)"

text \<open>
  \<^verbatim>\<open>algebraicToMove\<close>. The returned object is \<^verbatim>\<open>{ r: row, c: col }\<close>; its \<open>r\<close> is whatever
  number \<^verbatim>\<open>parseInt(algebraic[1]) - 1\<close> is, so the result type keeps a \<open>jsnum\<close> there.
\<close>

definition algebraicToMove :: "string \<Rightarrow> (jsnum \<times> int) option" where
  "algebraicToMove algebraic =
     (if algebraic = ''pass'' then None
      else if length algebraic \<noteq> 2 then None
      else let col = of_char (algebraic ! 0) - 97;
               row = jsMinus (parseInt [algebraic ! 1]) 1
           in if col < 0 \<or> col > 7 \<or> jsLess row 0 \<or> jsGreater row 7 then None
              else Some (row, col))"

subsection \<open>Plain-text board format\<close>

text \<open>\<^verbatim>\<open>Array.prototype.join\<close> on strings.\<close>

fun joinWith :: "string \<Rightarrow> string list \<Rightarrow> string" where
  "joinWith sep [] = []"
| "joinWith sep [x] = x"
| "joinWith sep (x # y # ys) = x @ sep @ joinWith sep (y # ys)"

definition cellChar :: "cell \<Rightarrow> char" where
  "cellChar cell =
     (if cell = Empty then CHR ''.'' else if cell = Black then CHR ''B'' else CHR ''W'')"

definition serializeBoard :: "board \<Rightarrow> string" where
  "serializeBoard b =
     joinWith [CHR 0x0A] (map (\<lambda>row. joinWith [] (map (\<lambda>cell. [cellChar cell]) row)) b)"

text \<open>
  \<^verbatim>\<open>String.prototype.trim\<close> strips white space and line terminators at both ends; among
  the characters of \<open>char\<close> these are the codes 9 to 13, 32 and 160.
\<close>

definition isWhiteSpace :: "char \<Rightarrow> bool" where
  "isWhiteSpace ch \<longleftrightarrow> (of_char ch :: nat) \<in> {9, 10, 11, 12, 13, 32, 160}"

definition trim :: "string \<Rightarrow> string" where
  "trim s = rev (dropWhile isWhiteSpace (rev (dropWhile isWhiteSpace s)))"

text \<open>\<^verbatim>\<open>String.prototype.split\<close> with a one-character separator.\<close>

fun splitOn :: "char \<Rightarrow> string \<Rightarrow> string list" where
  "splitOn sep [] = [[]]"
| "splitOn sep (ch # s) =
     (if ch = sep then [] # splitOn sep s
      else (case splitOn sep s of l # ls \<Rightarrow> (ch # l) # ls | [] \<Rightarrow> [[ch]]))"

text \<open>The three \<^verbatim>\<open>throw new Error(...)\<close> of \<^verbatim>\<open>deserializeBoard\<close>.\<close>

datatype format_error = BadRowCount | BadRowLength | BadCharacter char

fun parseRow :: "string \<Rightarrow> format_error + cell list" where
  "parseRow [] = Inr []"
| "parseRow (ch # s) =
     (case (if ch = CHR ''.'' then Inr Empty
            else if ch = CHR ''B'' then Inr Black
            else if ch = CHR ''W'' then Inr White
            else Inl (BadCharacter ch)) of
        Inl e \<Rightarrow> Inl e
      | Inr v \<Rightarrow> (case parseRow s of Inl e \<Rightarrow> Inl e | Inr row \<Rightarrow> Inr (v # row)))"

fun parseLines :: "string list \<Rightarrow> format_error + board" where
  "parseLines [] = Inr []"
| "parseLines (line # lines) =
     (if length line \<noteq> 8 then Inl BadRowLength
      else (case parseRow line of
              Inl e \<Rightarrow> Inl e
            | Inr row \<Rightarrow> (case parseLines lines of Inl e \<Rightarrow> Inl e | Inr b \<Rightarrow> Inr (row # b))))"

definition deserializeBoard :: "string \<Rightarrow> format_error + board" where
  "deserializeBoard str =
     (let lines = splitOn (CHR 0x0A) (trim str)
      in if length lines \<noteq> 8 then Inl BadRowCount else parseLines lines)"

section \<open>Position hasher (zobrist.ts)\<close>

text \<open>
  \<^verbatim>\<open>ZOBRIST_PIECES[pos][colorIndex]\<close> is filled once at module load with random 64-bit
  values (\<^verbatim>\<open>Math.random\<close>), so the table is a parameter \<open>zp\<close> of the hash functions: every
  theorem holds for every table. The hash is a BigInt that only ever holds XORs of
  values below \<open>2^64\<close>, a \<open>64 word\<close>.
\<close>

type_synonym zobrist = "int \<Rightarrow> nat \<Rightarrow> 64 word"

definition ZOBRIST_SIDE_TO_MOVE :: "64 word" where
  "ZOBRIST_SIDE_TO_MOVE = 0x1a2b3c4d5e6f7a8b"

definition hashBoard :: "zobrist \<Rightarrow> board \<Rightarrow> cell \<Rightarrow> 64 word" where
  "hashBoard zp b sideToMove =
     (let hash = foldl (\<lambda>hash r. foldl (\<lambda>hash c.
                   let piece = cellAt b r c
                   in if piece \<noteq> Empty
                      then let pos = r * 8 + c; colorIndex = (if piece = Black then 0 else 1)
                           in hash XOR zp pos colorIndex
                      else hash) hash [0..7]) 0 [0..7]
      in if sideToMove = Black then hash XOR ZOBRIST_SIDE_TO_MOVE else hash)"

text \<open>\<^verbatim>\<open>updateHash(oldHash, _board, move, color, flippedPositions)\<close>; the board is not read.\<close>

definition updateHash ::
  "zobrist \<Rightarrow> 64 word \<Rightarrow> board \<Rightarrow> int \<times> int \<Rightarrow> cell \<Rightarrow> (int \<times> int) list \<Rightarrow> 64 word" where
  "updateHash zp oldHash unusedBoard move color flippedPositions =
     (let hash = oldHash XOR ZOBRIST_SIDE_TO_MOVE;
          pos = fst move * 8 + snd move;
          colorIndex = (if color = Black then 0 else 1);
          hash = hash XOR zp pos colorIndex;
          hash = foldl (\<lambda>hash (r, c).
                   let flipPos = r * 8 + c;
                       oldColorIndex = (if color = Black then 1 else 0);
                       hash = hash XOR zp flipPos oldColorIndex
                   in hash XOR zp flipPos colorIndex) hash flippedPositions;
          newSideToMove = negate color
      in if newSideToMove = Black then hash XOR ZOBRIST_SIDE_TO_MOVE else hash)"

text \<open>
  \<^verbatim>\<open>getFlippedPositions\<close> (search.ts), which supplies \<open>updateHash\<close> with the flipped
  squares: the same walk as \<open>getFlipsInDirection\<close>, appended direction by direction.
\<close>

definition getFlippedPositions :: "board \<Rightarrow> move \<Rightarrow> cell \<Rightarrow> (int \<times> int) list" where
  "getFlippedPositions b move color =
     (case move of
        None \<Rightarrow> []
      | Some (r, c) \<Rightarrow>
          foldl (\<lambda>flipped (dr, dc).
             (case collectOpponent b (negate color) dr dc (r + dr) (c + dc) [] of
                (directionFlips, nr, nc) \<Rightarrow>
                  if onBoard nr nc \<and> cellAt b nr nc = color then flipped @ directionFlips
                  else flipped)) [] directions)"

text \<open>
  For the proofs: the constant one square contributes to the hash, and the hash of one
  row.
\<close>

definition pieceKey :: "zobrist \<Rightarrow> cell \<Rightarrow> int \<Rightarrow> int \<Rightarrow> 64 word" where
  "pieceKey zp piece r c =
     (if piece \<noteq> Empty then zp (r * 8 + c) (if piece = Black then 0 else 1) else 0)"

definition rowHash :: "zobrist \<Rightarrow> board \<Rightarrow> int \<Rightarrow> 64 word" where
  "rowHash zp b r = foldl (\<lambda>h c. h XOR pieceKey zp (cellAt b r c) r c) 0 [0..7]"

definition piecesHash :: "zobrist \<Rightarrow> board \<Rightarrow> 64 word" where
  "piecesHash zp b = foldl (\<lambda>h r. h XOR rowHash zp b r) 0 [0..7]"

text \<open>For the proofs: all squares a move flips, direction by direction.\<close>

definition allFlips :: "board \<Rightarrow> int \<Rightarrow> int \<Rightarrow> cell \<Rightarrow> (int \<times> int) list" where
  "allFlips b r c color = concat (map (\<lambda>(dr, dc). getFlipsInDirection b r c dr dc color) directions)"


section \<open>Evaluator (evaluation.ts)\<close>

text \<open>
  The evaluator computes in JavaScript numbers, IEEE 754 doubles. The piece-square,
  stability and disc-difference scores are integers far below \<open>2 ^ 53\<close>, exact in doubles,
  and are embedded as \<open>int\<close>. \<open>calculateMobilityScore\<close> and \<open>calculateFrontierScore\<close> are
  embedded as the exact quotient (\<open>real\<close>) of their two integers; the double that the
  source's division yields is the rounding \<open>roundDouble\<close> of that quotient, and
  \<open>evaluatePosition\<close> below takes it, rounding again after each product and each sum of
  the weighted total, in the order in which the source evaluates them.
\<close>

record eval_weights =
  PIECE_SQUARE :: real
  MOBILITY :: real
  FRONTIER :: real
  STABILITY :: real
  DISC_DIFF :: real

definition EVAL_WEIGHTS :: eval_weights where
  "EVAL_WEIGHTS = \<lparr>PIECE_SQUARE = 1.0, MOBILITY = 78.0, FRONTIER = -50.0,
                    STABILITY = 100.0, DISC_DIFF = 1.0\<rparr>"




definition isFrontier :: "board \<Rightarrow> int \<Rightarrow> int \<Rightarrow> bool" where
  "isFrontier b r c =
     list_ex (\<lambda>(dr, dc). let nr = r + dr; nc = c + dc
                          in onBoard nr nc \<and> cellAt b nr nc = Empty) directions"

definition frontierCounts :: "board \<Rightarrow> cell \<Rightarrow> nat \<times> nat" where
  "frontierCounts b color =
     (let opponent = negate color
      in foldl (\<lambda>acc r. foldl (\<lambda>(myFrontier, oppFrontier) c.
            let piece = cellAt b r c
            in if piece = Empty then (myFrontier, oppFrontier)
               else if isFrontier b r c
                    then (if piece = color then (myFrontier + 1, oppFrontier)
                          else if piece = opponent then (myFrontier, oppFrontier + 1)
                          else (myFrontier, oppFrontier))
                    else (myFrontier, oppFrontier)) acc [0..7]) (0, 0) [0..7])"

definition calculateFrontierScore :: "board \<Rightarrow> cell \<Rightarrow> real" where
  "calculateFrontierScore b color =
     (case frontierCounts b color of (myFrontier, oppFrontier) \<Rightarrow>
        -50 * (real myFrontier - real oppFrontier) / (real myFrontier + real oppFrontier + 1))"

text \<open>
  The array \<^verbatim>\<open>stable: boolean[][]\<close> of \<^verbatim>\<open>calculateStableDiscs\<close> is created 8x8, all false,
  and only read and written at squares of the board; it is the function from a square to
  its mark. \<open>isDirectionStable\<close> starts at the neighbour \<open>(r + dr, c + dc)\<close>; as for the
  flip loops, the test on the direction is true at every call of the source.
\<close>

function isDirectionStable ::
  "board \<Rightarrow> (int \<Rightarrow> int \<Rightarrow> bool) \<Rightarrow> int \<Rightarrow> int \<Rightarrow> int \<Rightarrow> int \<Rightarrow> cell \<Rightarrow> bool" where
  "isDirectionStable b marks nr nc dr dc color =
     (if onBoard nr nc \<and> (dr, dc) \<noteq> (0, 0)
      then (if cellAt b nr nc \<noteq> color \<or> \<not> marks nr nc then False
            else isDirectionStable b marks (nr + dr) (nc + dc) dr dc color)
      else True)"
  by pat_completeness auto
termination
  by (relation "measure (\<lambda>(b, marks, nr, nc, dr, dc, color).
        if 0 < dr then nat (8 - nr) else if dr < 0 then nat (nr + 1)
        else if 0 < dc then nat (8 - nc) else nat (nc + 1))")
     (auto simp: onBoard_def)

declare isDirectionStable.simps [simp del]

definition isDiscStable :: "board \<Rightarrow> (int \<Rightarrow> int \<Rightarrow> bool) \<Rightarrow> int \<Rightarrow> int \<Rightarrow> bool" where
  "isDiscStable b marks r c =
     (let color = cellAt b r c
      in if color = Empty then False
         else list_ex (\<lambda>(dr, dc). isDirectionStable b marks (r + dr) (c + dc) dr dc color)
                directions)"

definition setMark :: "(int \<Rightarrow> int \<Rightarrow> bool) \<Rightarrow> int \<Rightarrow> int \<Rightarrow> (int \<Rightarrow> int \<Rightarrow> bool)" where
  "setMark marks r c = marks(r := (marks r)(c := True))"

text \<open>
  One pass of the \<^verbatim>\<open>while (changed)\<close> loop: the two nested loops over the squares, each
  square seeing the marks set earlier in the same pass.
\<close>

definition passStep ::
  "board \<Rightarrow> (int \<Rightarrow> int \<Rightarrow> bool) \<times> bool \<Rightarrow> int \<times> int \<Rightarrow> (int \<Rightarrow> int \<Rightarrow> bool) \<times> bool" where
  "passStep b acc sq =
     (case (acc, sq) of ((marks, changed), (r, c)) \<Rightarrow>
        if cellAt b r c = Empty \<or> marks r c then (marks, changed)
        else if isDiscStable b marks r c then (setMark marks r c, True)
        else (marks, changed))"

definition stablePass :: "board \<Rightarrow> (int \<Rightarrow> int \<Rightarrow> bool) \<Rightarrow> (int \<Rightarrow> int \<Rightarrow> bool) \<times> bool" where
  "stablePass b marks =
     foldl (\<lambda>acc r. foldl (\<lambda>acc c. passStep b acc (r, c)) acc [0..7]) (marks, False) [0..7]"

text \<open>
  The loop ends: a pass that reports a change has marked a square that was not marked,
  and unmarks none, so the number of unmarked squares of the board goes down.
\<close>

definition unmarked :: "(int \<Rightarrow> int \<Rightarrow> bool) \<Rightarrow> nat" where
  "unmarked marks = length (filter (\<lambda>(r, c). \<not> marks r c) (List.product [0..7] [0..7]))"

lemma foldl_product:
  "foldl (\<lambda>acc r. foldl (\<lambda>acc c. f acc (r, c)) acc ys) acc xs = foldl f acc (List.product xs ys)"
proof (induction xs arbitrary: acc)
  case Nil
  show ?case by simp
next
  case (Cons x xs)
  have "foldl (\<lambda>acc c. f acc (x, c)) acc ys = foldl f acc (map (Pair x) ys)" for acc
    by (induction ys arbitrary: acc) simp_all
  with Cons show ?case by simp
qed

lemma passStep_fold:
  assumes "foldl (passStep b) (m, ch) sqs = (m', ch')"
  shows "(\<forall>r c. m r c \<longrightarrow> m' r c) \<and>
         (ch' \<longrightarrow> ch \<or> (\<exists>(r, c) \<in> set sqs. \<not> m r c \<and> m' r c))"
  using assms
proof (induction sqs arbitrary: m ch)
  case Nil
  then show ?case by simp
next
  case (Cons sq sqs)
  obtain r c where sq: "sq = (r, c)" by (cases sq)
  obtain m1 ch1 where s1: "passStep b (m, ch) sq = (m1, ch1)" by (cases "passStep b (m, ch) sq")
  with Cons.prems have rest: "foldl (passStep b) (m1, ch1) sqs = (m', ch')" by simp
  note IH = Cons.IH[OF rest]
  from s1 sq have mono: "\<forall>r c. m r c \<longrightarrow> m1 r c"
    and ch: "ch1 \<longrightarrow> ch \<or> (\<not> m r c \<and> m1 r c)"
    by (auto simp: passStep_def setMark_def split: if_splits)
  show ?case
  proof (intro conjI impI)
    show "\<forall>r c. m r c \<longrightarrow> m' r c" using mono IH by blast
  next
    assume "ch'"
    with IH have "ch1 \<or> (\<exists>(r, c) \<in> set sqs. \<not> m1 r c \<and> m' r c)" by blast
    then show "ch \<or> (\<exists>(r, c) \<in> set (sq # sqs). \<not> m r c \<and> m' r c)"
    proof
      assume ch1
      with ch have "ch \<or> (\<not> m r c \<and> m1 r c)" by blast
      with IH sq show ?thesis by auto
    next
      assume "\<exists>(r, c) \<in> set sqs. \<not> m1 r c \<and> m' r c"
      with mono show ?thesis by auto
    qed
  qed
qed

lemma filter_length_less:
  assumes "\<forall>x \<in> set xs. Q' x \<longrightarrow> Q x" "\<exists>x \<in> set xs. Q x \<and> \<not> Q' x"
  shows "length (filter Q' xs) < length (filter Q xs)"
  using assms
proof (induction xs)
  case Nil
  then show ?case by simp
next
  case (Cons x xs)
  have le: "length (filter Q' xs) \<le> length (filter Q xs)"
    using Cons.prems(1) by (induction xs) auto
  show ?case
  proof (cases "\<exists>y \<in> set xs. Q y \<and> \<not> Q' y")
    case True
    with Cons have "length (filter Q' xs) < length (filter Q xs)" by simp
    with Cons.prems(1) show ?thesis by auto
  next
    case False
    with Cons.prems(2) have "Q x" "\<not> Q' x" by auto
    with le show ?thesis by simp
  qed
qed

lemma stablePass_decreases:
  assumes "stablePass b marks = (marks', True)"
  shows "unmarked marks' < unmarked marks"
proof -
  from assms have "foldl (passStep b) (marks, False) (List.product [0..7] [0..7]) = (marks', True)"
    by (simp add: stablePass_def foldl_product)
  from passStep_fold[OF this]
  have "\<forall>r c. marks r c \<longrightarrow> marks' r c"
    and "\<exists>(r, c) \<in> set (List.product [0..7] [0..7]). \<not> marks r c \<and> marks' r c"
    by auto
  then show ?thesis
    unfolding unmarked_def by (intro filter_length_less) auto
qed

function stableLoop :: "board \<Rightarrow> (int \<Rightarrow> int \<Rightarrow> bool) \<Rightarrow> (int \<Rightarrow> int \<Rightarrow> bool)" where
  "stableLoop b marks =
     (case stablePass b marks of
        (marks', changed) \<Rightarrow> if changed then stableLoop b marks' else marks')"
  by pat_completeness auto
termination
  by (relation "measure (\<lambda>(b, marks). unmarked marks)") (auto simp: stablePass_decreases)

declare stableLoop.simps [simp del]

definition calculateStableDiscs :: "board \<Rightarrow> (int \<Rightarrow> int \<Rightarrow> bool)" where
  "calculateStableDiscs b =
     (let corners = [(0, 0), (0, 7), (7, 0), (7, 7)];
          marks = foldl (\<lambda>marks (r, c). if cellAt b r c \<noteq> Empty then setMark marks r c else marks)
                    (\<lambda>r c. False) corners
      in stableLoop b marks)"













text \<open>
  A position of a game played by the rules: \<open>playLegal\<close> applies the plies in order and
  gives \<open>None\<close> as soon as one is not in \<open>generateLegalMoves\<close>.
\<close>

fun playLegal :: "board \<Rightarrow> (move \<times> cell) list \<Rightarrow> board option" where
  "playLegal b [] = Some b"
| "playLegal b ((m, color) # plies) =
     (if m \<in> set (generateLegalMoves b color)
      then playLegal (mr_board (applyMove b m color)) plies else None)"

definition fivePlies :: "(move \<times> cell) list" where
  "fivePlies = [(Some (2, 4), Black), (Some (2, 3), White), (Some (1, 2), Black),
                (Some (1, 3), White), (Some (0, 2), Black)]"

definition afterFivePlies :: board where
  "afterFivePlies =
    [[Empty, Empty, Black, Empty, Empty, Empty, Empty, Empty],
     [Empty, Empty, Black, Black, Empty, Empty, Empty, Empty],
     [Empty, Empty, Empty, White, Black, Empty, Empty, Empty],
     [Empty, Empty, Empty, White, Black, Empty, Empty, Empty],
     [Empty, Empty, Empty, White, Black, Empty, Empty, Empty],
     [Empty, Empty, Empty, Empty, Empty, Empty, Empty, Empty],
     [Empty, Empty, Empty, Empty, Empty, Empty, Empty, Empty],
     [Empty, Empty, Empty, Empty, Empty, Empty, Empty, Empty]]"

definition afterFirstPly :: board where
  "afterFirstPly =
    [[Empty, Empty, Empty, Empty, Empty, Empty, Empty, Empty],
     [Empty, Empty, Empty, Empty, Empty, Empty, Empty, Empty],
     [Empty, Empty, Empty, Empty, Black, Empty, Empty, Empty],
     [Empty, Empty, Empty, Black, Black, Empty, Empty, Empty],
     [Empty, Empty, Empty, White, Black, Empty, Empty, Empty],
     [Empty, Empty, Empty, Empty, Empty, Empty, Empty, Empty],
     [Empty, Empty, Empty, Empty, Empty, Empty, Empty, Empty],
     [Empty, Empty, Empty, Empty, Empty, Empty, Empty, Empty]]"

section \<open>Search engine (search.ts)\<close>

text \<open>
  The module state: the transposition table, a \<^verbatim>\<open>Map\<close> from the hash (its decimal string,
  which determines it) to an entry, and the clock. A \<^verbatim>\<open>Map\<close> keeps one entry per key, in
  insertion order, and \<^verbatim>\<open>size\<close> counts them: an association list written with
  \<open>AList.update\<close>. \<^verbatim>\<open>Date.now()\<close> is a read of the environment: \<open>clock k\<close> is what
  the \<open>k\<close>-th read returns, for an arbitrary \<open>clock\<close>, and \<open>clockReads\<close> counts the reads.

  \<^verbatim>\<open>evaluatePosition\<close> enters the search only through the integer it returns; the search
  is embedded for an arbitrary evaluator \<open>ev\<close>, and for an arbitrary Zobrist table \<open>zp\<close>.
  The optional progress callback is left out (the engine is embedded as it runs when none
  is passed); \<^verbatim>\<open>minimax\<close> is only ever called with a natural number as depth.
\<close>

datatype tt_flag = EXACT | LOWER | UPPER

record tt_entry =
  te_key :: "64 word"
  te_depth :: nat
  te_value :: int
  te_flag :: tt_flag
  te_bestMove :: move

type_synonym tt = "(64 word \<times> tt_entry) list"

record env =
  transpositionTable :: tt
  clockReads :: nat

type_synonym evaluator = "board \<Rightarrow> cell \<Rightarrow> int"
type_synonym clock = "nat \<Rightarrow> int"

definition INFINITY :: int where
  "INFINITY = 999999"

definition MAX_TT_SIZE :: nat where
  "MAX_TT_SIZE = 1000000"

record search_result =
  sr_score :: int
  sr_bestMove :: move
  sr_pv :: "string list"
  sr_nodes :: nat
  sr_timeout :: bool

record loop_state =
  ls_bestMove :: move
  ls_bestScore :: int
  ls_bestPV :: "string list"
  ls_alpha :: int
  ls_beta :: int
  ls_nodes :: nat

text \<open>
  \<^verbatim>\<open>orderMoves\<close>: \<^verbatim>\<open>Array.prototype.sort\<close> with the comparator below. The sort is stable
  and the comparator orders by corner, flip count and opponent mobility, so the result is
  the stable insertion sort's.
\<close>

definition isCorner :: "int \<times> int \<Rightarrow> bool" where
  "isCorner rc \<longleftrightarrow> rc \<in> set [(0, 0), (0, 7), (7, 0), (7, 7)]"

definition compareMoves :: "board \<Rightarrow> cell \<Rightarrow> move \<Rightarrow> move \<Rightarrow> int" where
  "compareMoves b color a b' =
     (case (a, b') of
        (Some arc, Some brc) \<Rightarrow>
          let aIsCorner = isCorner arc; bIsCorner = isCorner brc
          in if aIsCorner \<and> \<not> bIsCorner then -1
             else if \<not> aIsCorner \<and> bIsCorner then 1
             else let aFlips = int (mr_flips (applyMove b a color));
                      bFlips = int (mr_flips (applyMove b b' color))
                  in if aFlips \<noteq> bFlips then bFlips - aFlips
                     else let afterA = mr_board (applyMove b a color);
                              afterB = mr_board (applyMove b b' color);
                              oppColor = negate color;
                              aOppMobility = int (length (generateLegalMoves afterA oppColor));
                              bOppMobility = int (length (generateLegalMoves afterB oppColor))
                          in aOppMobility - bOppMobility
      | _ \<Rightarrow> 0)"

fun insertSorted :: "('a \<Rightarrow> 'a \<Rightarrow> int) \<Rightarrow> 'a \<Rightarrow> 'a list \<Rightarrow> 'a list" where
  "insertSorted cmp x [] = [x]"
| "insertSorted cmp x (y # ys) = (if cmp x y < 0 then x # y # ys else y # insertSorted cmp x ys)"

definition stableSort :: "('a \<Rightarrow> 'a \<Rightarrow> int) \<Rightarrow> 'a list \<Rightarrow> 'a list" where
  "stableSort cmp xs = foldl (\<lambda>sorted x. insertSorted cmp x sorted) [] xs"

definition orderMoves :: "board \<Rightarrow> move list \<Rightarrow> cell \<Rightarrow> move list" where
  "orderMoves b moves color = stableSort (compareMoves b color) moves"

text \<open>
  The deadline test at the top of \<^verbatim>\<open>minimax\<close>:
  \<^verbatim>\<open>deadline && nodes % 1024 === 0 && Date.now() > deadline\<close>. The clock is read only
  when the first two conjuncts hold.
\<close>

definition timeoutCheck :: "clock \<Rightarrow> int option \<Rightarrow> nat \<Rightarrow> env \<Rightarrow> bool \<times> env" where
  "timeoutCheck clock deadline nodes env =
     (case deadline of
        None \<Rightarrow> (False, env)
      | Some d \<Rightarrow>
          if d \<noteq> 0 \<and> nodes mod 1024 = 0
          then (clock (clockReads env) > d, env\<lparr>clockReads := Suc (clockReads env)\<rparr>)
          else (False, env))"

text \<open>The probe: the entry when it short-circuits the call, \<open>None\<close> otherwise.\<close>

definition ttProbe :: "tt \<Rightarrow> 64 word \<Rightarrow> nat \<Rightarrow> int \<Rightarrow> int \<Rightarrow> tt_entry option" where
  "ttProbe table boardHash depth alpha beta =
     (case map_of table boardHash of
        None \<Rightarrow> None
      | Some ttEntry \<Rightarrow>
          if te_depth ttEntry \<ge> depth
          then (if te_flag ttEntry = EXACT then Some ttEntry
                else if te_flag ttEntry = LOWER \<and> te_value ttEntry \<ge> beta then Some ttEntry
                else if te_flag ttEntry = UPPER \<and> te_value ttEntry \<le> alpha then Some ttEntry
                else None)
          else None)"

text \<open>The store at the end of \<^verbatim>\<open>minimax\<close>, under the capacity test.\<close>

definition ttStore ::
  "64 word \<Rightarrow> nat \<Rightarrow> int \<Rightarrow> int \<Rightarrow> int \<Rightarrow> move \<Rightarrow> env \<Rightarrow> env" where
  "ttStore boardHash depth bestScore originalAlpha beta bestMove env =
     (if length (transpositionTable env) < MAX_TT_SIZE
      then let flag = (if bestScore \<le> originalAlpha then UPPER
                       else if bestScore \<ge> beta then LOWER else EXACT)
           in env\<lparr>transpositionTable :=
                   AList.update boardHash
                     \<lparr>te_key = boardHash, te_depth = depth, te_value = bestScore,
                      te_flag = flag, te_bestMove = bestMove\<rparr>
                     (transpositionTable env)\<rparr>
      else env)"

text \<open>
  The tail of the move loop's body: the running best score, move and line, the window,
  and the node count.
\<close>

definition updateBest :: "bool \<Rightarrow> move \<Rightarrow> search_result \<Rightarrow> nat \<Rightarrow> loop_state \<Rightarrow> loop_state" where
  "updateBest isMaximizing move result nodes ls =
     (let ls = (if isMaximizing
                then (if sr_score result > ls_bestScore ls
                      then ls\<lparr>ls_bestScore := sr_score result, ls_bestMove := move,
                              ls_bestPV := sr_pv result\<rparr>
                      else ls)\<lparr>ls_alpha := max (ls_alpha ls) (sr_score result)\<rparr>
                else (if sr_score result < ls_bestScore ls
                      then ls\<lparr>ls_bestScore := sr_score result, ls_bestMove := move,
                              ls_bestPV := sr_pv result\<rparr>
                      else ls)\<lparr>ls_beta := min (ls_beta ls) (sr_score result)\<rparr>)
      in ls\<lparr>ls_nodes := nodes\<rparr>)"

text \<open>
  \<^verbatim>\<open>minimax\<close>, and its \<^verbatim>\<open>for (const move of orderedMoves)\<close> loop as \<open>moveLoop\<close>, which
  returns \<open>Inl\<close> of the result when a child reports a timeout (the \<^verbatim>\<open>return\<close> inside the
  loop) and \<open>Inr\<close> of the loop variables when the loop ends or breaks. \<open>childDepth\<close> is
  \<^verbatim>\<open>depth - 1\<close>.
\<close>

function minimax ::
  "zobrist \<Rightarrow> evaluator \<Rightarrow> clock \<Rightarrow> board \<Rightarrow> cell \<Rightarrow> nat \<Rightarrow> int \<Rightarrow> int \<Rightarrow> bool \<Rightarrow> string list
     \<Rightarrow> 64 word \<Rightarrow> int option \<Rightarrow> env \<Rightarrow> search_result \<times> env"
and moveLoop ::
  "zobrist \<Rightarrow> evaluator \<Rightarrow> clock \<Rightarrow> board \<Rightarrow> cell \<Rightarrow> nat \<Rightarrow> bool \<Rightarrow> string list
     \<Rightarrow> 64 word \<Rightarrow> int option \<Rightarrow> move list \<Rightarrow> loop_state \<Rightarrow> env
     \<Rightarrow> (search_result + loop_state) \<times> env"
where
  "minimax zp ev clock b color depth alpha beta isMaximizing currentPV boardHash deadline env =
     (let nodes = 1 in
      case timeoutCheck clock deadline nodes env of (timedOut, env) \<Rightarrow>
      if timedOut
      then (\<lparr>sr_score = - INFINITY, sr_bestMove = None, sr_pv = currentPV, sr_nodes = nodes,
             sr_timeout = True\<rparr>, env)
      else
        (case ttProbe (transpositionTable env) boardHash depth alpha beta of
           Some ttEntry \<Rightarrow>
             (\<lparr>sr_score = te_value ttEntry, sr_bestMove = te_bestMove ttEntry,
               sr_pv = currentPV, sr_nodes = nodes, sr_timeout = False\<rparr>, env)
         | None \<Rightarrow>
             (case depth of
                0 \<Rightarrow>
                  (let score = ev b color
                   in (\<lparr>sr_score = (if isMaximizing then score else - score),
                         sr_bestMove = None, sr_pv = currentPV, sr_nodes = nodes,
                         sr_timeout = False\<rparr>, env))
              | Suc childDepth \<Rightarrow>
                  (let currentColor = (if isMaximizing then color else negate color);
                       moves = generateLegalMoves b currentColor
                   in if moves = []
                      then (let oppositeColor = negate currentColor;
                                oppositeMoves = generateLegalMoves b oppositeColor
                            in if oppositeMoves = []
                               then (let score = ev b color
                                     in (\<lparr>sr_score = (if isMaximizing then score else - score),
                                           sr_bestMove = None, sr_pv = currentPV @ [''pass''],
                                           sr_nodes = nodes, sr_timeout = False\<rparr>, env))
                               else (case minimax zp ev clock b color childDepth alpha beta
                                            (\<not> isMaximizing) (currentPV @ [''pass''])
                                            boardHash deadline env of
                                       (result, env) \<Rightarrow>
                                         (\<lparr>sr_score = sr_score result, sr_bestMove = None,
                                           sr_pv = sr_pv result,
                                           sr_nodes = nodes + sr_nodes result,
                                           sr_timeout = False\<rparr>, env)))
                      else (let orderedMoves = orderMoves b moves currentColor;
                                originalAlpha = alpha;
                                ls = \<lparr>ls_bestMove = None,
                                      ls_bestScore = (if isMaximizing then - INFINITY else INFINITY),
                                      ls_bestPV = currentPV, ls_alpha = alpha, ls_beta = beta,
                                      ls_nodes = nodes\<rparr>
                            in case moveLoop zp ev clock b color childDepth isMaximizing
                                      currentPV boardHash deadline orderedMoves ls env of
                                 (Inl timedOutResult, env) \<Rightarrow> (timedOutResult, env)
                               | (Inr ls, env) \<Rightarrow>
                                   (\<lparr>sr_score = ls_bestScore ls, sr_bestMove = ls_bestMove ls,
                                     sr_pv = ls_bestPV ls, sr_nodes = ls_nodes ls,
                                     sr_timeout = False\<rparr>,
                                    ttStore boardHash depth (ls_bestScore ls) originalAlpha
                                      (ls_beta ls) (ls_bestMove ls) env))))))"
| "moveLoop zp ev clock b color childDepth isMaximizing currentPV boardHash deadline [] ls env =
     (Inr ls, env)"
| "moveLoop zp ev clock b color childDepth isMaximizing currentPV boardHash deadline
      (move # rest) ls env =
     (let currentColor = (if isMaximizing then color else negate color);
          newBoard = mr_board (applyMove b move currentColor);
          newPV = currentPV @ [moveToAlgebraic move];
          flippedPositions = getFlippedPositions b move currentColor;
          newHash = (case move of
                       Some rc \<Rightarrow> updateHash zp boardHash b rc currentColor flippedPositions
                     | None \<Rightarrow> boardHash)
      in case minimax zp ev clock newBoard color childDepth (ls_alpha ls) (ls_beta ls)
                (\<not> isMaximizing) newPV newHash deadline env of
           (result, env) \<Rightarrow>
             (let nodes = ls_nodes ls + sr_nodes result
              in if sr_timeout result
                 then (Inl \<lparr>sr_score = ls_bestScore ls, sr_bestMove = ls_bestMove ls,
                            sr_pv = ls_bestPV ls, sr_nodes = nodes, sr_timeout = True\<rparr>, env)
                 else (let ls = updateBest isMaximizing move result nodes ls
                       in if ls_beta ls \<le> ls_alpha ls then (Inr ls, env)
                          else moveLoop zp ev clock b color childDepth isMaximizing currentPV
                                 boardHash deadline rest ls env)))"
  by pat_completeness auto
termination
  by (relation "inv_image (less_than <*lex*> less_than)
        (\<lambda>x. case x of
           Inl (zp, ev, clock, b, color, depth, r) \<Rightarrow> (2 * depth, 0)
         | Inr (zp, ev, clock, b, color, childDepth, isMaximizing, currentPV, boardHash,
                deadline, moves, r) \<Rightarrow> (2 * childDepth + 1, length moves))")
     auto


declare minimax.simps [simp del]

text \<open>
  \<^verbatim>\<open>engineSearch\<close>: \<open>deepen\<close> is the iterative-deepening loop over
  \<open>currentDepth = 1, ..., depth\<close>, returning the loop variables at the \<^verbatim>\<open>break\<close>.
\<close>

record search_options =
  so_depth :: "int option"
  so_timeLimitMs :: "int option"

record engine_result =
  er_bestMove :: move
  er_bestMoveAlgebraic :: string
  er_flips :: nat
  er_score :: int
  er_pv :: "string list"
  er_nodes :: nat
  er_timeMs :: int
  er_depthSearched :: nat

record driver_state =
  ds_nodes :: nat
  ds_bestMove :: move
  ds_bestScore :: int
  ds_pv :: "string list"
  ds_depthSearched :: nat

definition dateNow :: "clock \<Rightarrow> env \<Rightarrow> int \<times> env" where
  "dateNow clock env = (clock (clockReads env), env\<lparr>clockReads := Suc (clockReads env)\<rparr>)"

fun deepen ::
  "zobrist \<Rightarrow> evaluator \<Rightarrow> clock \<Rightarrow> board \<Rightarrow> cell \<Rightarrow> int \<Rightarrow> int \<Rightarrow> nat list
     \<Rightarrow> driver_state \<Rightarrow> env \<Rightarrow> driver_state \<times> env" where
  "deepen zp ev clock b color startTime timeLimitMs [] st env = (st, env)"
| "deepen zp ev clock b color startTime timeLimitMs (currentDepth # rest) st env =
     (case dateNow clock env of (now, env) \<Rightarrow>
        if now - startTime \<ge> timeLimitMs then (st, env)
        else (let deadline = startTime + timeLimitMs
              in case minimax zp ev clock b color currentDepth (- INFINITY) INFINITY True []
                        (hashBoard zp b color) (Some deadline) env of
                   (result, env) \<Rightarrow>
                     if sr_timeout result then (st, env)
                     else deepen zp ev clock b color startTime timeLimitMs rest
                            \<lparr>ds_nodes = ds_nodes st + sr_nodes result,
                             ds_bestMove = sr_bestMove result,
                             ds_bestScore = sr_score result,
                             ds_pv = sr_pv result,
                             ds_depthSearched = currentDepth\<rparr> env))"

definition engineSearch ::
  "zobrist \<Rightarrow> evaluator \<Rightarrow> clock \<Rightarrow> board \<Rightarrow> cell \<Rightarrow> search_options \<Rightarrow> env
     \<Rightarrow> engine_result \<times> env" where
  "engineSearch zp ev clock b color options env =
     (let depth = (case so_depth options of None \<Rightarrow> 6 | Some d \<Rightarrow> d);
          timeLimitMs = (case so_timeLimitMs options of None \<Rightarrow> 2000 | Some t \<Rightarrow> t)
      in case dateNow clock env of (startTime, env) \<Rightarrow>
         (let legalMoves = generateLegalMoves b color
          in if length legalMoves = 0
             then (let score = ev b color
                   in case dateNow clock env of (now, env) \<Rightarrow>
                        (\<lparr>er_bestMove = None, er_bestMoveAlgebraic = ''pass'', er_flips = 0,
                          er_score = score, er_pv = [''pass''], er_nodes = 1,
                          er_timeMs = now - startTime, er_depthSearched = 0\<rparr>, env))
             else (case deepen zp ev clock b color startTime timeLimitMs (map nat [1..depth])
                          \<lparr>ds_nodes = 0, ds_bestMove = None, ds_bestScore = - INFINITY,
                           ds_pv = [], ds_depthSearched = 0\<rparr> env of
                     (st, env) \<Rightarrow>
                       (let flips = (case ds_bestMove st of
                                       None \<Rightarrow> 0
                                     | Some rc \<Rightarrow> mr_flips (applyMove b (ds_bestMove st) color))
                        in case dateNow clock env of (now, env) \<Rightarrow>
                             (\<lparr>er_bestMove = ds_bestMove st,
                               er_bestMoveAlgebraic = moveToAlgebraic (ds_bestMove st),
                               er_flips = flips, er_score = ds_bestScore st, er_pv = ds_pv st,
                               er_nodes = ds_nodes st, er_timeMs = now - startTime,
                               er_depthSearched = ds_depthSearched st\<rparr>, env)))))"

definition freshEnv :: env where
  "freshEnv = \<lparr>transpositionTable = [], clockReads = 0\<rparr>"

text \<open>For the proofs: no entry of the table was stored at a depth above \<open>D\<close>.\<close>

definition depthBounded :: "nat \<Rightarrow> tt \<Rightarrow> bool" where
  "depthBounded D table \<longleftrightarrow> list_all (\<lambda>(k, e). te_depth e \<le> D) table"




section \<open>Legal-move enumeration\<close>

lemma row_sorted:
  "sorted_wrt (<) ys \<Longrightarrow>
   sorted_wrt rowMajorLess (concat (map (\<lambda>c. if P c then [Some (r, c)] else []) ys))"
  by (induction ys) (auto simp: sorted_wrt_append)

lemma row_set:
  "set (concat (map (\<lambda>c. if P c then [Some (r, c)] else []) ys))
     = {Some (r, c) | c. c \<in> set ys \<and> P c}"
  by (induction ys) auto

lemma grid_sorted:
  "sorted_wrt (<) xs \<Longrightarrow> sorted_wrt (<) ys \<Longrightarrow>
   sorted_wrt rowMajorLess
     (concat (map (\<lambda>r. concat (map (\<lambda>c. if P r c then [Some (r, c)] else []) ys)) xs))"
  by (induction xs) (auto simp: sorted_wrt_append row_sorted row_set)

lemma generateLegalMoves_grid:
  "color \<noteq> Empty \<Longrightarrow> generateLegalMoves b color =
   concat (map (\<lambda>r. concat (map (\<lambda>c.
      if cellAt b r c = Empty \<and>
         list_ex (\<lambda>(dr, dc). hasFlipsInDirection b r c dr dc color) directions
      then [Some (r, c)] else []) [0..7])) [0..7])"
  unfolding generateLegalMoves_def
  by (auto intro!: arg_cong[where f=concat] map_cong)

lemma legal_move_iff:
  "m \<in> set (generateLegalMoves b color) \<longleftrightarrow>
   color \<noteq> Empty \<and> (\<exists>r c. m = Some (r, c) \<and> onBoard r c \<and> cellAt b r c = Empty \<and>
      (\<exists>d \<in> set directions. hasFlipsInDirection b r c (fst d) (snd d) color))"
  unfolding generateLegalMoves_def onBoard_def
  by (auto simp: list_ex_iff case_prod_beta) force+

lemma rowMajorLess_sorted_distinct:
  "sorted_wrt rowMajorLess ms \<Longrightarrow> distinct ms"
proof (induction ms)
  case Nil
  show ?case by simp
next
  case (Cons m ms)
  have "\<not> rowMajorLess m m" by (cases m) auto
  with Cons show ?case by auto
qed

lemma generateLegalMoves_sorted: "sorted_wrt rowMajorLess (generateLegalMoves b color)"
proof (cases "color = Empty")
  case True
  then show ?thesis by (simp add: generateLegalMoves_def)
next
  case False
  show ?thesis
    unfolding generateLegalMoves_grid[OF False]
    by (rule grid_sorted) (rule sorted_wrt_upto)+
qed

text \<open>
  Claim C10. For every board and every side, \<open>generateLegalMoves\<close> returns only non-null
  moves whose row and column lie in 0..7 and whose square is empty on the input board; no
  square occurs twice; and the entries stand in strictly increasing row-major order (by
  row, then by column).
\<close>

theorem generateLegalMoves_enumeration:
  "(\<forall>m \<in> set (generateLegalMoves b color).
      \<exists>r c. m = Some (r, c) \<and> 0 \<le> r \<and> r \<le> 7 \<and> 0 \<le> c \<and> c \<le> 7 \<and> cellAt b r c = Empty)
   \<and> distinct (generateLegalMoves b color)
   \<and> sorted_wrt rowMajorLess (generateLegalMoves b color)"
proof (intro conjI ballI)
  fix m assume "m \<in> set (generateLegalMoves b color)"
  then show "\<exists>r c. m = Some (r, c) \<and> 0 \<le> r \<and> r \<le> 7 \<and> 0 \<le> c \<and> c \<le> 7 \<and> cellAt b r c = Empty"
    unfolding legal_move_iff onBoard_def by auto
next
  show "sorted_wrt rowMajorLess (generateLegalMoves b color)"
    by (rule generateLegalMoves_sorted)
  then show "distinct (generateLegalMoves b color)"
    by (rule rowMajorLess_sorted_distinct)
qed

theorem generateLegalMoves_enumeration_witness:
  "generateLegalMoves createStartingBoard Black = [Some (2, 4), Some (3, 5), Some (4, 2), Some (5, 3)]
   \<and> cellAt createStartingBoard 2 4 = Empty
   \<and> distinct (generateLegalMoves createStartingBoard Black)
   \<and> sorted_wrt rowMajorLess (generateLegalMoves createStartingBoard Black)"
proof -
  have "generateLegalMoves createStartingBoard Black
          = [Some (2, 4), Some (3, 5), Some (4, 2), Some (5, 3)]"
    by code_simp
  moreover have "cellAt createStartingBoard 2 4 = Empty"
    by code_simp
  ultimately show ?thesis
    using generateLegalMoves_enumeration[of createStartingBoard Black] by simp
qed

section \<open>Move application\<close>

lemma collect_scan:
  "collectOpponent b opp dr dc nr nc fl = (fl', nr', nc') \<Longrightarrow>
   scanOpponent b opp dr dc nr nc h = (h \<or> length fl < length fl', nr', nc')
     \<and> length fl \<le> length fl'"
proof (induction b opp dr dc nr nc fl arbitrary: h rule: collectOpponent.induct)
  case (1 b opponent dr dc nr nc flips)
  show ?case
  proof (cases "onBoard nr nc \<and> cellAt b nr nc = opponent \<and> (dr, dc) \<noteq> (0, 0)")
    case True
    with "1.prems"
    have "collectOpponent b opponent dr dc (nr + dr) (nc + dc) (flips @ [(nr, nc)])
            = (fl', nr', nc')"
      by (subst (asm) collectOpponent.simps) simp
    from "1.IH"[OF True this, of True] True show ?thesis
      by (subst scanOpponent.simps) auto
  next
    case False
    with "1.prems" show ?thesis
      by (subst scanOpponent.simps, subst (asm) collectOpponent.simps) auto
  qed
qed

lemma has_imp_flips:
  assumes "hasFlipsInDirection b r c dr dc color"
  shows "getFlipsInDirection b r c dr dc color \<noteq> []"
proof -
  obtain fl nr nc
    where c: "collectOpponent b (negate color) dr dc (r + dr) (c + dc) [] = (fl, nr, nc)"
    by (metis prod_cases3)
  from collect_scan[OF c, of False] assms c show ?thesis
    by (auto simp: hasFlipsInDirection_def getFlipsInDirection_def)
qed

lemma cellAt_setCell_same:
  "cellAt nb r c = v \<Longrightarrow> cellAt (setCell nb fr fc v) r c = v"
  unfolding cellAt_def setCell_def
  by (cases "nat fr < length nb"; cases "nat fc < length (nb ! nat fr)")
     (auto simp: nth_list_update list_update_beyond)

lemma cellAt_setCell_here:
  "valid_board b \<Longrightarrow> onBoard r c \<Longrightarrow> cellAt (setCell b r c v) r c = v"
  unfolding cellAt_def setCell_def valid_board_def onBoard_def
  by (auto simp: list_all_iff)

lemma cellAt_fold_setCell:
  "cellAt nb r c = v \<Longrightarrow> cellAt (foldl (\<lambda>nb (fr, fc). setCell nb fr fc v) nb fl) r c = v"
  by (induction fl arbitrary: nb) (auto simp: cellAt_setCell_same)

lemma applyMove_fold_board:
  "cellAt nb r c = color \<Longrightarrow>
   cellAt (fst (foldl (\<lambda>(newBoard, totalFlips) (dr, dc).
                   let flipsInDirection = getFlipsInDirection b r c dr dc color
                   in (foldl (\<lambda>nb (fr, fc). setCell nb fr fc color) newBoard flipsInDirection,
                       totalFlips + length flipsInDirection)) (nb, t) ds)) r c = color"
  by (induction ds arbitrary: nb t) (auto simp: cellAt_fold_setCell Let_def)

lemma applyMove_fold_count:
  "snd (foldl (\<lambda>(newBoard, totalFlips) (dr, dc).
                   let flipsInDirection = getFlipsInDirection b r c dr dc color
                   in (foldl (\<lambda>nb (fr, fc). setCell nb fr fc color) newBoard flipsInDirection,
                       totalFlips + length flipsInDirection)) (nb, t) ds)
   = t + sum_list (map (\<lambda>(dr, dc). length (getFlipsInDirection b r c dr dc color)) ds)"
  by (induction ds arbitrary: nb t) (auto simp: Let_def)

text \<open>
  Claim C6. For every (8x8) board, every non-empty side and every move contained in
  \<open>generateLegalMoves board side\<close>, \<open>applyMove\<close> returns a flip count of at least 1 and a
  board whose square at the move's coordinates holds \<open>side\<close>.
\<close>

theorem applyMove_legal:
  assumes vb: "valid_board b" and ne: "side \<noteq> Empty"
    and mem: "m \<in> set (generateLegalMoves b side)"
  shows "1 \<le> mr_flips (applyMove b m side) \<and>
         (\<exists>r c. m = Some (r, c) \<and> cellAt (mr_board (applyMove b m side)) r c = side)"
proof -
  from mem obtain r c dr dc where m: "m = Some (r, c)" and ob: "onBoard r c"
    and d: "(dr, dc) \<in> set directions" and h: "hasFlipsInDirection b r c dr dc side"
    by (fastforce simp: legal_move_iff)
  have "length (getFlipsInDirection b r c dr dc side) \<le>
        sum_list (map (\<lambda>(dr, dc). length (getFlipsInDirection b r c dr dc side)) directions)"
    using d member_le_sum_list[of "length (getFlipsInDirection b r c dr dc side)"
              "map (\<lambda>(dr, dc). length (getFlipsInDirection b r c dr dc side)) directions"]
    by force
  moreover have "1 \<le> length (getFlipsInDirection b r c dr dc side)"
    using has_imp_flips[OF h] by (cases "getFlipsInDirection b r c dr dc side") auto
  ultimately have cnt: "1 \<le> mr_flips (applyMove b m side)"
    using applyMove_fold_count[of b r c side "setCell b r c side" 0 directions]
    by (simp add: applyMove_def m case_prod_beta)
  have "cellAt (mr_board (applyMove b m side)) r c = side"
    using applyMove_fold_board[OF cellAt_setCell_here[OF vb ob, of side], of b 0 directions]
    by (simp add: applyMove_def m case_prod_beta)
  with cnt m show ?thesis by blast
qed

theorem applyMove_legal_witness:
  "valid_board createStartingBoard
   \<and> Some (2, 4) \<in> set (generateLegalMoves createStartingBoard Black)
   \<and> 1 \<le> mr_flips (applyMove createStartingBoard (Some (2, 4)) Black)
   \<and> cellAt (mr_board (applyMove createStartingBoard (Some (2, 4)) Black)) 2 4 = Black"
proof -
  have v: "valid_board createStartingBoard" by code_simp
  have m: "Some (2, 4) \<in> set (generateLegalMoves createStartingBoard Black)" by code_simp
  have "Black \<noteq> Empty" by simp
  from applyMove_legal[OF v this m] v m show ?thesis by simp
qed

section \<open>Algebraic notation\<close>

lemma natToString_digit: "n < 10 \<Longrightarrow> natToString n = [char_of (48 + int n)]"
  by (subst natToString.simps) simp

lemma algebraic_roundtrip_coordinate:
  assumes "0 \<le> r" "r \<le> 7" "0 \<le> c" "c \<le> 7"
  shows "algebraicToMove (moveToAlgebraic (Some (r, c))) = Some (Num r, c)"
proof -
  from assms have r: "r = 0 \<or> r = 1 \<or> r = 2 \<or> r = 3 \<or> r = 4 \<or> r = 5 \<or> r = 6 \<or> r = 7"
    by arith
  from assms have c: "c = 0 \<or> c = 1 \<or> c = 2 \<or> c = 3 \<or> c = 4 \<or> c = 5 \<or> c = 6 \<or> c = 7"
    by arith
  from r have row: "toString (r + 1) = [char_of (49 + r)]"
    by (auto simp: toString_def natToString_digit)
  from r have p: "parseInt [char_of (49 + r)] = Num (r + 1)"
    by (auto simp: parseInt_def)
  from c have col: "of_char (char_of (97 + c)) = 97 + c"
      "char_of (97 + c) # [char_of (49 + r)] \<noteq> ''pass''"
    by auto
  show ?thesis
    using assms by (simp add: algebraicToMove_def moveToAlgebraic_def row p col)
qed

lemma algebraic_roundtrip_pass: "algebraicToMove (moveToAlgebraic None) = None"
  by (simp add: algebraicToMove_def moveToAlgebraic_def)

text \<open>
  Claim C7. \<open>moveToAlgebraic\<close> and \<open>algebraicToMove\<close> are inverse on the pass and on the
  coordinate moves of the board (the two lemmas above), and the claim goes on: every
  malformed string, a non-digit second character included, decodes to null. The source
  tests \<^verbatim>\<open>row < 0 || row > 7\<close>, which is false for \<open>NaN\<close>: on \<^verbatim>\<open>"ax"\<close> it returns the
  coordinate object \<^verbatim>\<open>{ r: NaN, c: 0 }\<close>.
\<close>

theorem algebraicToMove_non_digit: "algebraicToMove ''ax'' = Some (NaN, 0)"
  by (simp add: algebraicToMove_def parseInt_def)

section \<open>Plain-text board format\<close>

lemma row_string: "joinWith [] (map (\<lambda>cell. [cellChar cell]) row) = map cellChar row"
  by (induction row rule: induct_list012) auto

lemma parseRow_cells: "parseRow (map cellChar row) = Inr row"
proof (induction row)
  case Nil
  show ?case by simp
next
  case (Cons v row)
  then show ?case by (cases v) (simp_all add: cellChar_def)
qed

lemma splitOn_no_sep: "sep \<notin> set s \<Longrightarrow> splitOn sep s = [s]"
  by (induction s) auto

lemma splitOn_append: "sep \<notin> set x \<Longrightarrow> splitOn sep (x @ sep # s) = x # splitOn sep s"
  by (induction x) auto

lemma splitOn_join:
  "rows \<noteq> [] \<Longrightarrow> \<forall>row \<in> set rows. sep \<notin> set row \<Longrightarrow>
   splitOn sep (joinWith [sep] rows) = rows"
  by (induction rows rule: induct_list012) (auto simp: splitOn_no_sep splitOn_append)

lemma parseLines_rows:
  "\<forall>row \<in> set b. length row = 8 \<Longrightarrow> parseLines (map (map cellChar) b) = Inr b"
  by (induction b) (auto simp: parseRow_cells)

lemma dropWhile_hd: "s \<noteq> [] \<Longrightarrow> \<not> P (hd s) \<Longrightarrow> dropWhile P s = s"
  by (cases s) auto

lemma trim_id:
  assumes "s \<noteq> []" "\<not> isWhiteSpace (hd s)" "\<not> isWhiteSpace (last s)"
  shows "trim s = s"
proof -
  have "dropWhile isWhiteSpace s = s"
    using assms(1,2) by (rule dropWhile_hd)
  moreover have "dropWhile isWhiteSpace (rev s) = rev s"
    using assms(1,3) by (intro dropWhile_hd) (simp_all add: hd_rev)
  ultimately show ?thesis by (simp add: trim_def)
qed

lemma cellChar_not_space: "\<not> isWhiteSpace (cellChar v)"
  by (auto simp: isWhiteSpace_def cellChar_def)

lemma joinWith_nonempty_hd: "rows \<noteq> [] \<Longrightarrow> hd rows \<noteq> [] \<Longrightarrow> joinWith sep rows \<noteq> []"
  by (induction rows rule: induct_list012) auto

lemma joinWith_nonempty_last: "rows \<noteq> [] \<Longrightarrow> last rows \<noteq> [] \<Longrightarrow> joinWith sep rows \<noteq> []"
  by (induction rows rule: induct_list012) auto

lemma hd_joinWith: "rows \<noteq> [] \<Longrightarrow> hd rows \<noteq> [] \<Longrightarrow> hd (joinWith sep rows) = hd (hd rows)"
  by (induction rows rule: induct_list012) auto

lemma last_joinWith:
  "rows \<noteq> [] \<Longrightarrow> last rows \<noteq> [] \<Longrightarrow> last (joinWith sep rows) = last (last rows)"
  by (induction rows rule: induct_list012) (auto simp: joinWith_nonempty_last)

text \<open>
  Claim C9. For every valid 8x8 board, \<open>deserializeBoard (serializeBoard board)\<close> returns
  (without an error) a board equal to the input.
\<close>

theorem serialize_roundtrip:
  assumes "valid_board b"
  shows "deserializeBoard (serializeBoard b) = Inr b"
proof -
  from assms have len: "length b = 8" and rows: "\<forall>row \<in> set b. length row = 8"
    by (auto simp: valid_board_def list_all_iff)
  let ?rows = "map (map cellChar) b"
  have ser: "serializeBoard b = joinWith [CHR 0x0A] ?rows"
    by (simp add: serializeBoard_def row_string)
  from len have ne: "?rows \<noteq> []" "b \<noteq> []" by auto
  from ne have "hd b \<in> set b" "last b \<in> set b" by simp_all
  with rows have "length (hd b) = 8" "length (last b) = 8" by blast+
  with ne have hdne: "hd ?rows \<noteq> []" "last ?rows \<noteq> []"
    by (auto simp: hd_map last_map)
  have h: "\<not> isWhiteSpace (hd (joinWith [CHR 0x0A] ?rows))"
    using hdne ne by (simp add: hd_joinWith hd_map cellChar_not_space)
  have l: "\<not> isWhiteSpace (last (joinWith [CHR 0x0A] ?rows))"
    using hdne ne by (simp add: last_joinWith last_map cellChar_not_space)
  have t: "trim (serializeBoard b) = joinWith [CHR 0x0A] ?rows"
    unfolding ser using joinWith_nonempty_hd[OF ne(1) hdne(1)] h l by (rule trim_id)
  have "\<forall>row \<in> set ?rows. CHR 0x0A \<notin> set row"
    by (auto simp: cellChar_def)
  then have s: "splitOn (CHR 0x0A) (joinWith [CHR 0x0A] ?rows) = ?rows"
    using ne(1) by (simp add: splitOn_join)
  show ?thesis
    using len by (simp add: deserializeBoard_def t s parseLines_rows[OF rows])
qed

theorem serialize_roundtrip_witness:
  "valid_board createStartingBoard
   \<and> serializeBoard createStartingBoard =
       ''........'' @ [CHR 0x0A] @ ''........'' @ [CHR 0x0A] @ ''........'' @ [CHR 0x0A] @
       ''...BW...'' @ [CHR 0x0A] @ ''...WB...'' @ [CHR 0x0A] @ ''........'' @ [CHR 0x0A] @
       ''........'' @ [CHR 0x0A] @ ''........''
   \<and> deserializeBoard (serializeBoard createStartingBoard) = Inr createStartingBoard"
proof -
  have v: "valid_board createStartingBoard" by code_simp
  moreover have "serializeBoard createStartingBoard =
       ''........'' @ [CHR 0x0A] @ ''........'' @ [CHR 0x0A] @ ''........'' @ [CHR 0x0A] @
       ''...BW...'' @ [CHR 0x0A] @ ''...WB...'' @ [CHR 0x0A] @ ''........'' @ [CHR 0x0A] @
       ''........'' @ [CHR 0x0A] @ ''........''"
    by code_simp
  ultimately show ?thesis using serialize_roundtrip[OF v] by simp
qed

section \<open>Position hasher\<close>

lemma xor_foldl_shift:
  "foldl (\<lambda>h x. h XOR g x) (h :: 64 word) xs = h XOR foldl (\<lambda>h x. h XOR g x) 0 xs"
  by (induction xs rule: rev_induct) (simp_all add: ac_simps)

lemma xor_foldl_same:
  "\<forall>x \<in> set xs. g' x = g x \<Longrightarrow>
   foldl (\<lambda>h x. h XOR g' x) (h :: 64 word) xs = foldl (\<lambda>h x. h XOR g x) h xs"
  by (induction xs rule: rev_induct) simp_all

lemma xor_foldl_change:
  "distinct xs \<Longrightarrow> x0 \<in> set xs \<Longrightarrow> \<forall>x \<in> set xs. x \<noteq> x0 \<longrightarrow> g' x = g x \<Longrightarrow>
   foldl (\<lambda>h x. h XOR g' x) (h :: 64 word) xs = foldl (\<lambda>h x. h XOR g x) h xs XOR g x0 XOR g' x0"
proof (induction xs rule: rev_induct)
  case Nil
  then show ?case by simp
next
  case (snoc x xs)
  show ?case
  proof (cases "x = x0")
    case True
    with snoc.prems have "\<forall>y \<in> set xs. g' y = g y" by auto
    then have "foldl (\<lambda>h x. h XOR g' x) h xs = foldl (\<lambda>h x. h XOR g x) h xs"
      by (rule xor_foldl_same)
    with True show ?thesis by (simp add: ac_simps)
  next
    case False
    with snoc.prems have "x0 \<in> set xs" "distinct xs" "\<forall>y \<in> set xs. y \<noteq> x0 \<longrightarrow> g' y = g y"
      and "g' x = g x" by auto
    with snoc.IH show ?thesis by (simp add: ac_simps)
  qed
qed

lemma hashBoard_pieces:
  "hashBoard zp b s = piecesHash zp b XOR (if s = Black then ZOBRIST_SIDE_TO_MOVE else 0)"
proof -
  have inner: "(\<lambda>hash c. let piece = cellAt b r c
                   in if piece \<noteq> Empty
                      then let pos = r * 8 + c; colorIndex = (if piece = Black then 0 else 1)
                           in hash XOR zp pos colorIndex
                      else hash) = (\<lambda>h c. h XOR pieceKey zp (cellAt b r c) r c)" for r
    by (intro ext) (simp add: pieceKey_def Let_def)
  have row: "foldl (\<lambda>h c. h XOR pieceKey zp (cellAt b r c) r c) hash [0..7] = hash XOR rowHash zp b r"
    for hash r
    unfolding rowHash_def by (rule xor_foldl_shift)
  show ?thesis
    by (simp add: hashBoard_def inner row piecesHash_def)
qed

lemma valid_setCell:
  assumes "valid_board b"
  shows "valid_board (setCell b r c v)"
proof (cases "nat r < length b")
  case True
  then have "b ! nat r \<in> set b" by simp
  with assms show ?thesis
    unfolding valid_board_def setCell_def list_all_iff
    by (auto dest!: set_update_subset_insert[THEN subsetD])
next
  case False
  with assms show ?thesis by (simp add: setCell_def list_update_beyond)
qed

lemma cellAt_setCell:
  "valid_board b \<Longrightarrow> onBoard r c \<Longrightarrow> onBoard r' c' \<Longrightarrow>
   cellAt (setCell b r c v) r' c' = (if r' = r \<and> c' = c then v else cellAt b r' c')"
  unfolding valid_board_def setCell_def cellAt_def onBoard_def list_all_iff
  by (auto simp: nth_list_update)

lemma set_upto07: "x \<in> set [0..7] \<longleftrightarrow> 0 \<le> x \<and> x \<le> (7::int)"
  by simp

lemma rowHash_setCell_other:
  assumes "valid_board b" "onBoard r c" "0 \<le> r'" "r' \<le> 7" "r' \<noteq> r"
  shows "rowHash zp (setCell b r c v) r' = rowHash zp b r'"
  unfolding rowHash_def
  by (rule xor_foldl_same) (use assms in \<open>auto simp: cellAt_setCell onBoard_def\<close>)

lemma rowHash_setCell_here:
  assumes "valid_board b" "onBoard r c"
  shows "rowHash zp (setCell b r c v) r
       = rowHash zp b r XOR pieceKey zp (cellAt b r c) r c XOR pieceKey zp v r c"
proof -
  have "foldl (\<lambda>h c'. h XOR pieceKey zp (cellAt (setCell b r c v) r c') r c') 0 [0..7]
      = foldl (\<lambda>h c'. h XOR pieceKey zp (cellAt b r c') r c') 0 [0..7]
          XOR pieceKey zp (cellAt b r c) r c
          XOR pieceKey zp (cellAt (setCell b r c v) r c) r c"
    by (rule xor_foldl_change) (use assms in \<open>auto simp: cellAt_setCell onBoard_def\<close>)
  with assms show ?thesis by (simp add: rowHash_def cellAt_setCell)
qed

lemma piecesHash_setCell:
  assumes "valid_board b" "onBoard r c"
  shows "piecesHash zp (setCell b r c v)
       = piecesHash zp b XOR pieceKey zp (cellAt b r c) r c XOR pieceKey zp v r c"
proof -
  have "foldl (\<lambda>h r'. h XOR rowHash zp (setCell b r c v) r') 0 [0..7]
      = foldl (\<lambda>h r'. h XOR rowHash zp b r') 0 [0..7]
          XOR rowHash zp b r XOR rowHash zp (setCell b r c v) r"
    by (rule xor_foldl_change)
       (use assms in \<open>auto simp: rowHash_setCell_other onBoard_def\<close>)
  then show ?thesis
    by (simp add: piecesHash_def rowHash_setCell_here[OF assms] ac_simps)
qed

lemma flip_fold_shift:
  "foldl (\<lambda>h (r, c). (h XOR f r c) XOR g r c) (h XOR k :: 64 word) F
     = foldl (\<lambda>h (r, c). (h XOR f r c) XOR g r c) h F XOR k"
  by (induction F rule: rev_induct) (auto simp: ac_simps)

lemma piecesHash_flips:
  assumes "color \<noteq> Empty"
  shows "valid_board nb \<Longrightarrow> distinct F \<Longrightarrow>
     \<forall>(fr, fc) \<in> set F. onBoard fr fc \<and> cellAt nb fr fc = negate color \<Longrightarrow>
     piecesHash zp (foldl (\<lambda>nb (fr, fc). setCell nb fr fc color) nb F)
       = foldl (\<lambda>h (r, c). (h XOR zp (r * 8 + c) (if color = Black then 1 else 0))
                                XOR zp (r * 8 + c) (if color = Black then 0 else 1))
           (piecesHash zp nb) F"
proof (induction F arbitrary: nb)
  case Nil
  show ?case by simp
next
  case (Cons p F)
  obtain fr fc where p: "p = (fr, fc)" by (cases p)
  from Cons.prems p have ob: "onBoard fr fc" and old: "cellAt nb fr fc = negate color" by auto
  let ?nb = "setCell nb fr fc color"
  have v: "valid_board ?nb" using Cons.prems(1) by (rule valid_setCell)
  have d: "distinct F" using Cons.prems(2) by simp
  have rest: "\<forall>(r, c) \<in> set F. onBoard r c \<and> cellAt ?nb r c = negate color"
    using Cons.prems p by (auto simp: cellAt_setCell)
  have keys: "pieceKey zp (negate color) fr fc = zp (fr * 8 + fc) (if color = Black then 1 else 0)"
       "pieceKey zp color fr fc = zp (fr * 8 + fc) (if color = Black then 0 else 1)"
    using assms by (cases color; simp add: pieceKey_def)+
  have "piecesHash zp ?nb = (piecesHash zp nb XOR zp (fr * 8 + fc) (if color = Black then 1 else 0))
                                XOR zp (fr * 8 + fc) (if color = Black then 0 else 1)"
    by (simp add: piecesHash_setCell[OF Cons.prems(1) ob] old keys ac_simps)
  with Cons.IH[OF v d rest] p show ?case by simp
qed

lemma collect_shape:
  "collectOpponent b opp dr dc nr nc fl = (fl', nr', nc') \<Longrightarrow>
   \<exists>n. fl' = fl @ map (\<lambda>k. (nr + int k * dr, nc + int k * dc)) [0..<n] \<and>
       (\<forall>k<n. onBoard (nr + int k * dr) (nc + int k * dc) \<and>
              cellAt b (nr + int k * dr) (nc + int k * dc) = opp)"
proof (induction b opp dr dc nr nc fl rule: collectOpponent.induct)
  case (1 b opponent dr dc nr nc flips)
  show ?case
  proof (cases "onBoard nr nc \<and> cellAt b nr nc = opponent \<and> (dr, dc) \<noteq> (0, 0)")
    case True
    with "1.prems"
    have "collectOpponent b opponent dr dc (nr + dr) (nc + dc) (flips @ [(nr, nc)])
            = (fl', nr', nc')"
      by (subst (asm) collectOpponent.simps) simp
    from "1.IH"[OF True this] obtain n where
      fl': "fl' = (flips @ [(nr, nc)]) @ map (\<lambda>k. (nr + dr + int k * dr, nc + dc + int k * dc)) [0..<n]"
      and all: "\<forall>k<n. onBoard (nr + dr + int k * dr) (nc + dc + int k * dc) \<and>
              cellAt b (nr + dr + int k * dr) (nc + dc + int k * dc) = opponent"
      by blast
    have shift: "nr + dr + int k * dr = nr + int (Suc k) * dr"
                "nc + dc + int k * dc = nc + int (Suc k) * dc" for k
      by (simp_all add: algebra_simps)
    have "fl' = flips @ map (\<lambda>k. (nr + int k * dr, nc + int k * dc)) [0..<Suc n]"
      unfolding fl' shift
      by (simp only: map_upt_Suc append_assoc) simp
    moreover have "\<forall>k<Suc n. onBoard (nr + int k * dr) (nc + int k * dc) \<and>
              cellAt b (nr + int k * dr) (nc + int k * dc) = opponent"
    proof (intro allI impI)
      fix k assume "k < Suc n"
      show "onBoard (nr + int k * dr) (nc + int k * dc) \<and>
              cellAt b (nr + int k * dr) (nc + int k * dc) = opponent"
      proof (cases k)
        case 0
        with True show ?thesis by simp
      next
        case (Suc j)
        with \<open>k < Suc n\<close> all[rule_format, of j] show ?thesis
          unfolding shift by simp
      qed
    qed
    ultimately show ?thesis by blast
  next
    case False
    with "1.prems" have "fl' = flips"
      by (subst (asm) collectOpponent.simps) auto
    then show ?thesis by (intro exI[of _ 0]) simp
  qed
qed

lemma getFlips_shape:
  "\<exists>n. getFlipsInDirection b r c dr dc color
         = map (\<lambda>k. (r + int (Suc k) * dr, c + int (Suc k) * dc)) [0..<n] \<and>
       (\<forall>k<n. onBoard (r + int (Suc k) * dr) (c + int (Suc k) * dc) \<and>
              cellAt b (r + int (Suc k) * dr) (c + int (Suc k) * dc) = negate color)"
proof -
  obtain fl nr nc
    where c: "collectOpponent b (negate color) dr dc (r + dr) (c + dc) [] = (fl, nr, nc)"
    by (metis prod_cases3)
  have shift: "r + dr + int k * dr = r + int (Suc k) * dr"
              "c + dc + int k * dc = c + int (Suc k) * dc" for k
    by (simp_all add: algebra_simps)
  from collect_shape[OF c] obtain n where
    n: "fl = map (\<lambda>k. (r + int (Suc k) * dr, c + int (Suc k) * dc)) [0..<n]"
       "\<forall>k<n. onBoard (r + int (Suc k) * dr) (c + int (Suc k) * dc) \<and>
              cellAt b (r + int (Suc k) * dr) (c + int (Suc k) * dc) = negate color"
    unfolding shift by auto
  show ?thesis
  proof (cases "onBoard nr nc \<and> cellAt b nr nc = color")
    case True
    with c n show ?thesis by (auto simp: getFlipsInDirection_def)
  next
    case False
    with c have "getFlipsInDirection b r c dr dc color = []"
      by (auto simp: getFlipsInDirection_def)
    then show ?thesis by (intro exI[of _ 0]) simp
  qed
qed

lemma getFlips_member:
  assumes "p \<in> set (getFlipsInDirection b r c dr dc color)"
  shows "\<exists>j\<ge>1. p = (r + j * dr, c + j * dc) \<and> onBoard (fst p) (snd p) \<and>
           cellAt b (fst p) (snd p) = negate color"
proof -
  from getFlips_shape[of b r c dr dc color] assms obtain n k where
    "k < n" "p = (r + int (Suc k) * dr, c + int (Suc k) * dc)"
    "onBoard (r + int (Suc k) * dr) (c + int (Suc k) * dc)"
    "cellAt b (r + int (Suc k) * dr) (c + int (Suc k) * dc) = negate color"
    by auto
  then show ?thesis by (intro exI[of _ "int (Suc k)"]) simp
qed

lemma direction_facts:
  assumes "(dr, dc) \<in> set directions"
  shows "dr = -1 \<or> dr = 0 \<or> dr = 1" "dc = -1 \<or> dc = 0 \<or> dc = 1" "dr \<noteq> 0 \<or> dc \<noteq> 0"
  using assms by (auto simp: directions_def)

lemma unit_step_cancel:
  fixes j j' x x' :: int
  assumes "x = -1 \<or> x = 0 \<or> x = 1" "x' = -1 \<or> x' = 0 \<or> x' = 1" "1 \<le> j" "1 \<le> j'"
    and "j * x = j' * x'"
  shows "(x = 0 \<and> x' = 0) \<or> (x = x' \<and> j = j')"
  using assms by (elim disjE) auto

lemma rays_disjoint:
  assumes d: "(dr, dc) \<in> set directions" and d': "(dr', dc') \<in> set directions"
    and ne: "(dr, dc) \<noteq> (dr', dc')" and j: "(1::int) \<le> j" "1 \<le> j'"
  shows "(r + j * dr, c + j * dc) \<noteq> (r + j' * dr', c + j' * dc')"
proof
  assume "(r + j * dr, c + j * dc) = (r + j' * dr', c + j' * dc')"
  then have e: "j * dr = j' * dr'" "j * dc = j' * dc'" by simp_all
  note f = direction_facts[OF d] direction_facts[OF d']
  from unit_step_cancel[OF f(1) f(4) j e(1)] unit_step_cancel[OF f(2) f(5) j e(2)] f(3) f(6)
  have "dr = dr' \<and> dc = dc'" by auto
  with ne show False by simp
qed

lemma ray_not_origin:
  assumes "(dr, dc) \<in> set directions" "(1::int) \<le> j"
  shows "(r + j * dr, c + j * dc) \<noteq> (r, c)"
  using direction_facts(3)[OF assms(1)] assms(2) by auto

lemma getFlips_distinct:
  assumes "(dr, dc) \<in> set directions"
  shows "distinct (getFlipsInDirection b r c dr dc color)"
proof -
  obtain n where n: "getFlipsInDirection b r c dr dc color
         = map (\<lambda>k. (r + int (Suc k) * dr, c + int (Suc k) * dc)) [0..<n]"
    using getFlips_shape[of b r c dr dc color] by blast
  have "inj_on (\<lambda>k. (r + int (Suc k) * dr, c + int (Suc k) * dc)) (set [0..<n])"
  proof (rule inj_onI)
    fix k k'
    assume "(r + int (Suc k) * dr, c + int (Suc k) * dc)
          = (r + int (Suc k') * dr, c + int (Suc k') * dc)"
    then have "int (Suc k) * dr = int (Suc k') * dr" "int (Suc k) * dc = int (Suc k') * dc"
      by simp_all
    then have "(dr = 0 \<or> int (Suc k) = int (Suc k')) \<and> (dc = 0 \<or> int (Suc k) = int (Suc k'))"
      by (simp only: mult_cancel_right)
    with direction_facts(3)[OF assms] have "int (Suc k) = int (Suc k')" by blast
    then show "k = k'" by simp
  qed
  then show ?thesis unfolding n
    by (simp only: distinct_map distinct_upt simp_thms)
qed

lemma distinct_concat_map:
  "distinct ds \<Longrightarrow> (\<And>d. d \<in> set ds \<Longrightarrow> distinct (f d)) \<Longrightarrow>
   (\<And>d d'. d \<in> set ds \<Longrightarrow> d' \<in> set ds \<Longrightarrow> d \<noteq> d' \<Longrightarrow> set (f d) \<inter> set (f d') = {}) \<Longrightarrow>
   distinct (concat (map f ds))"
  by (induction ds) fastforce+

lemma allFlips_member:
  assumes "p \<in> set (allFlips b r c color)"
  shows "onBoard (fst p) (snd p) \<and> cellAt b (fst p) (snd p) = negate color \<and> p \<noteq> (r, c)"
proof -
  from assms obtain dr dc where d: "(dr, dc) \<in> set directions"
    and p: "p \<in> set (getFlipsInDirection b r c dr dc color)"
    by (auto simp: allFlips_def)
  from getFlips_member[OF p] ray_not_origin[OF d] show ?thesis by auto
qed

lemma allFlips_distinct: "distinct (allFlips b r c color)"
  unfolding allFlips_def
proof (rule distinct_concat_map)
  show "distinct directions" by (simp add: directions_def)
next
  fix d assume dd: "d \<in> set directions"
  show "distinct (case d of (dr, dc) \<Rightarrow> getFlipsInDirection b r c dr dc color)"
  proof (cases d)
    case (Pair dr dc)
    with dd show ?thesis by (simp add: getFlips_distinct)
  qed
next
  fix d d' assume d: "d \<in> set directions" "d' \<in> set directions" "d \<noteq> d'"
  obtain dr dc dr' dc' where e: "d = (dr, dc)" "d' = (dr', dc')" by (cases d; cases d')
  show "set (case d of (dr, dc) \<Rightarrow> getFlipsInDirection b r c dr dc color)
          \<inter> set (case d' of (dr, dc) \<Rightarrow> getFlipsInDirection b r c dr dc color) = {}"
  proof (rule ccontr)
    assume "\<not> ?thesis"
    then obtain p where p: "p \<in> set (getFlipsInDirection b r c dr dc color)"
        "p \<in> set (getFlipsInDirection b r c dr' dc' color)"
      unfolding e by auto
    from getFlips_member[OF p(1)] getFlips_member[OF p(2)]
    obtain j j' where "1 \<le> j" "1 \<le> j'" "p = (r + j * dr, c + j * dc)"
        "p = (r + j' * dr', c + j' * dc')" by auto
    with rays_disjoint[of dr dc dr' dc' j j' r c] d e show False by auto
  qed
qed

lemma getFlippedPositions_allFlips:
  "getFlippedPositions b (Some (r, c)) color = allFlips b r c color"
proof -
  have step: "(case collectOpponent b (negate color) dr dc (r + dr) (c + dc) [] of
                (directionFlips, nr, nc) \<Rightarrow>
                  if onBoard nr nc \<and> cellAt b nr nc = color then flipped @ directionFlips
                  else flipped) = flipped @ getFlipsInDirection b r c dr dc color"
    for flipped dr dc
    by (auto simp: getFlipsInDirection_def split: prod.splits)
  have "foldl (\<lambda>flipped (dr, dc). flipped @ getFlipsInDirection b r c dr dc color) acc ds
          = acc @ concat (map (\<lambda>(dr, dc). getFlipsInDirection b r c dr dc color) ds)" for acc ds
    by (induction ds arbitrary: acc) auto
  then show ?thesis
    by (simp add: getFlippedPositions_def step allFlips_def)
qed

lemma applyMove_allFlips:
  "applyMove b (Some (r, c)) color =
     \<lparr>mr_board = foldl (\<lambda>nb (fr, fc). setCell nb fr fc color) (setCell b r c color)
                    (allFlips b r c color),
      mr_flips = length (allFlips b r c color)\<rparr>"
proof -
  have "foldl (\<lambda>(newBoard, totalFlips) (dr, dc).
                   let flipsInDirection = getFlipsInDirection b r c dr dc color
                   in (foldl (\<lambda>nb (fr, fc). setCell nb fr fc color) newBoard flipsInDirection,
                       totalFlips + length flipsInDirection)) (nb, t) ds
      = (foldl (\<lambda>nb (fr, fc). setCell nb fr fc color) nb
           (concat (map (\<lambda>(dr, dc). getFlipsInDirection b r c dr dc color) ds)),
         t + length (concat (map (\<lambda>(dr, dc). getFlipsInDirection b r c dr dc color) ds)))"
    for nb t ds
    by (induction ds arbitrary: nb t) (auto simp: Let_def)
  then show ?thesis by (simp add: applyMove_def allFlips_def)
qed

text \<open>
  Claim C1. For every (8x8) board, every non-empty side \<open>c\<close> and every move legal for
  \<open>c\<close>, the claim wants \<open>updateHash\<close>, applied to \<open>hashBoard board c\<close>, the move, the mover
  and the squares the move flips, to return \<open>hashBoard board' (negate c)\<close> for the board
  \<open>board'\<close> of \<open>applyMove\<close>. The source toggles the side-to-move constant once without
  asking who moved (\<^verbatim>\<open>hash ^= ZOBRIST_SIDE_TO_MOVE\<close> under the comment "Remove old side to
  move"): the two hashes agree when Black moves and differ by exactly
  \<open>ZOBRIST_SIDE_TO_MOVE\<close> when White moves, whatever the table \<open>zp\<close>.
\<close>

theorem updateHash_incremental:
  assumes vb: "valid_board b" and mem: "Some (r, c) \<in> set (generateLegalMoves b color)"
  shows "updateHash zp (hashBoard zp b color) b (r, c) color
           (getFlippedPositions b (Some (r, c)) color)
       = hashBoard zp (mr_board (applyMove b (Some (r, c)) color)) (negate color)
           XOR (if color = White then ZOBRIST_SIDE_TO_MOVE else 0)"
proof -
  from mem have ne: "color \<noteq> Empty" and ob: "onBoard r c" and emp: "cellAt b r c = Empty"
    by (auto simp: legal_move_iff)
  let ?F = "allFlips b r c color"
  let ?nb = "setCell b r c color"
  let ?ci = "if color = Black then 0 else (1::nat)"
  let ?oci = "if color = Black then 1 else (0::nat)"
  let ?g = "\<lambda>h (r, c). (h XOR zp (r * 8 + c) ?oci) XOR zp (r * 8 + c) ?ci"
  let ?K = "(if color = Black then ZOBRIST_SIDE_TO_MOVE else 0) XOR ZOBRIST_SIDE_TO_MOVE"
  let ?S = "if negate color = Black then ZOBRIST_SIDE_TO_MOVE else 0"
  have v: "valid_board ?nb" using vb by (rule valid_setCell)
  have F: "\<forall>(fr, fc) \<in> set ?F. onBoard fr fc \<and> cellAt ?nb fr fc = negate color"
  proof (clarify)
    fix fr fc assume "(fr, fc) \<in> set ?F"
    from allFlips_member[OF this]
    have "onBoard fr fc" "cellAt b fr fc = negate color" "(fr, fc) \<noteq> (r, c)" by simp_all
    with vb ob show "onBoard fr fc \<and> cellAt ?nb fr fc = negate color"
      by (auto simp: cellAt_setCell)
  qed
  have key: "pieceKey zp color r c = zp (r * 8 + c) ?ci" "pieceKey zp Empty r c = 0"
    using ne by (simp_all add: pieceKey_def)
  have nb: "piecesHash zp ?nb = piecesHash zp b XOR zp (r * 8 + c) ?ci"
    by (simp add: piecesHash_setCell[OF vb ob] emp key)
  have final: "piecesHash zp (mr_board (applyMove b (Some (r, c)) color))
                 = foldl ?g (piecesHash zp ?nb) ?F"
    unfolding applyMove_allFlips using piecesHash_flips[OF ne v allFlips_distinct F] by simp
  have "updateHash zp (hashBoard zp b color) b (r, c) color
           (getFlippedPositions b (Some (r, c)) color)
      = foldl ?g ((hashBoard zp b color XOR ZOBRIST_SIDE_TO_MOVE) XOR zp (r * 8 + c) ?ci) ?F XOR ?S"
    by (simp add: updateHash_def Let_def getFlippedPositions_allFlips)
  also have "(hashBoard zp b color XOR ZOBRIST_SIDE_TO_MOVE) XOR zp (r * 8 + c) ?ci
      = piecesHash zp ?nb XOR ?K"
    unfolding hashBoard_pieces nb by (simp only: ac_simps)
  also have "foldl ?g (piecesHash zp ?nb XOR ?K) ?F = foldl ?g (piecesHash zp ?nb) ?F XOR ?K"
    by (rule flip_fold_shift)
  also have "(foldl ?g (piecesHash zp ?nb) ?F XOR ?K) XOR ?S
      = hashBoard zp (mr_board (applyMove b (Some (r, c)) color)) (negate color)
           XOR (if color = White then ZOBRIST_SIDE_TO_MOVE else 0)"
    unfolding hashBoard_pieces final[symmetric] using ne by (cases color) (simp_all add: xor.assoc)
  finally show ?thesis .
qed

lemma xor_offset_neq: "(s :: 64 word) \<noteq> 0 \<Longrightarrow> x XOR s \<noteq> x"
proof
  assume "s \<noteq> 0" "x XOR s = x"
  then have "x XOR (x XOR s) = x XOR x" by simp
  then have "s = 0" by (simp add: xor.assoc[symmetric])
  with \<open>s \<noteq> 0\<close> show False by simp
qed

theorem updateHash_incremental_witness:
  "\<forall>zp. valid_board createStartingBoard
     \<and> Some (2, 3) \<in> set (generateLegalMoves createStartingBoard White)
     \<and> updateHash zp (hashBoard zp createStartingBoard White) createStartingBoard (2, 3) White
           (getFlippedPositions createStartingBoard (Some (2, 3)) White)
         = hashBoard zp (mr_board (applyMove createStartingBoard (Some (2, 3)) White)) Black
             XOR ZOBRIST_SIDE_TO_MOVE
     \<and> updateHash zp (hashBoard zp createStartingBoard White) createStartingBoard (2, 3) White
           (getFlippedPositions createStartingBoard (Some (2, 3)) White)
         \<noteq> hashBoard zp (mr_board (applyMove createStartingBoard (Some (2, 3)) White)) Black"
proof
  fix zp
  have v: "valid_board createStartingBoard" by code_simp
  have m: "Some (2, 3) \<in> set (generateLegalMoves createStartingBoard White)" by code_simp
  have s: "ZOBRIST_SIDE_TO_MOVE \<noteq> 0" by (simp add: ZOBRIST_SIDE_TO_MOVE_def)
  from updateHash_incremental[OF v m, of zp]
  have e: "updateHash zp (hashBoard zp createStartingBoard White) createStartingBoard (2, 3) White
           (getFlippedPositions createStartingBoard (Some (2, 3)) White)
         = hashBoard zp (mr_board (applyMove createStartingBoard (Some (2, 3)) White)) Black
             XOR ZOBRIST_SIDE_TO_MOVE"
    by simp
  with xor_offset_neq[OF s] v m
  show "valid_board createStartingBoard
     \<and> Some (2, 3) \<in> set (generateLegalMoves createStartingBoard White)
     \<and> updateHash zp (hashBoard zp createStartingBoard White) createStartingBoard (2, 3) White
           (getFlippedPositions createStartingBoard (Some (2, 3)) White)
         = hashBoard zp (mr_board (applyMove createStartingBoard (Some (2, 3)) White)) Black
             XOR ZOBRIST_SIDE_TO_MOVE
     \<and> updateHash zp (hashBoard zp createStartingBoard White) createStartingBoard (2, 3) White
           (getFlippedPositions createStartingBoard (Some (2, 3)) White)
         \<noteq> hashBoard zp (mr_board (applyMove createStartingBoard (Some (2, 3)) White)) Black"
    by simp
qed

section \<open>Evaluator\<close>

text \<open>
  Claim C8. Under the default weights the frontier component of \<open>evaluatePosition\<close> is
  the weight \<open>-50\<close> times the normalised score \<open>-50 * (my - opp) / (my + opp + 1)\<close>; the
  claim goes on: the contribution is positive exactly when the opponent has more frontier
  discs. The two negative factors cancel: the contribution is
  \<open>2500 * (my - opp) / (my + opp + 1)\<close>, positive exactly when the \<^emph>\<open>evaluated\<close> side has
  more frontier discs, and negative when the opponent has more.
\<close>

theorem frontier_contribution:
  "(case frontierCounts b color of (my, opp) \<Rightarrow>
      FRONTIER EVAL_WEIGHTS * calculateFrontierScore b color
        = 2500 * (real my - real opp) / (real my + real opp + 1)
      \<and> ((0 < FRONTIER EVAL_WEIGHTS * calculateFrontierScore b color) = (opp < my))
      \<and> ((FRONTIER EVAL_WEIGHTS * calculateFrontierScore b color < 0) = (my < opp)))"
proof -
  obtain my opp where fc: "frontierCounts b color = (my, opp)"
    by (cases "frontierCounts b color")
  have pos: "0 < real my + real opp + 1" by simp
  have val: "FRONTIER EVAL_WEIGHTS * calculateFrontierScore b color
               = 2500 * (real my - real opp) / (real my + real opp + 1)"
    by (simp add: calculateFrontierScore_def fc EVAL_WEIGHTS_def)
  have "(0 < 2500 * (real my - real opp) / (real my + real opp + 1)) = (opp < my)"
    using pos by (simp add: zero_less_divide_iff)
  moreover have "(2500 * (real my - real opp) / (real my + real opp + 1) < 0) = (my < opp)"
    using pos by (simp add: divide_less_0_iff)
  ultimately show ?thesis by (simp add: fc val)
qed

theorem frontier_contribution_witness:
  "playLegal createStartingBoard [(Some (2, 4), Black)] = Some afterFirstPly
   \<and> frontierCounts afterFirstPly White = (1, 4)
   \<and> FRONTIER EVAL_WEIGHTS * calculateFrontierScore afterFirstPly White = -1250"
proof -
  have p: "playLegal createStartingBoard [(Some (2, 4), Black)] = Some afterFirstPly"
    by code_simp
  have fc: "frontierCounts afterFirstPly White = (1, 4)"
    by code_simp
  from frontier_contribution[of afterFirstPly White] p fc show ?thesis by simp
qed

text \<open>
  Claim C4. The stability closure is claimed sound: a disc it marks can never be flipped
  in any continuation of legal play. \<open>isDirectionStable\<close> answers true for a direction
  in which the walk leaves the board at once, so every disc on the border is marked, and
  then every disc in line with it. After five legal plies from the starting position the
  black disc on \<open>(1, 2)\<close> is marked stable, and White's legal move to \<open>(0, 1)\<close> flips it.
\<close>

theorem stable_disc_flipped:
  "playLegal createStartingBoard fivePlies = Some afterFivePlies
   \<and> cellAt afterFivePlies 1 2 = Black
   \<and> calculateStableDiscs afterFivePlies 1 2
   \<and> Some (0, 1) \<in> set (generateLegalMoves afterFivePlies White)
   \<and> cellAt (mr_board (applyMove afterFivePlies (Some (0, 1)) White)) 1 2 = White"
proof (intro conjI)
  show "playLegal createStartingBoard fivePlies = Some afterFivePlies" by code_simp
  show "cellAt afterFivePlies 1 2 = Black" by code_simp
  show "calculateStableDiscs afterFivePlies 1 2" by code_simp
  show "Some (0, 1) \<in> set (generateLegalMoves afterFivePlies White)" by code_simp
  show "cellAt (mr_board (applyMove afterFivePlies (Some (0, 1)) White)) 1 2 = White"
    by code_simp
qed

section \<open>Search engine\<close>

lemma timeoutCheck_one: "timeoutCheck clock deadline (Suc 0) env = (False, env)"
  by (simp add: timeoutCheck_def split: option.splits)

lemma minimax_hit:
  assumes "ttProbe (transpositionTable env) boardHash depth alpha beta = Some ttEntry"
  shows "minimax zp ev clock b color depth alpha beta isMaximizing currentPV boardHash deadline env
       = (\<lparr>sr_score = te_value ttEntry, sr_bestMove = te_bestMove ttEntry,
           sr_pv = currentPV, sr_nodes = 1, sr_timeout = False\<rparr>, env)"
  using assms by (subst minimax.simps) (auto simp: timeoutCheck_one)

lemma minimax_leaf:
  assumes "ttProbe (transpositionTable env) boardHash 0 alpha beta = None"
  shows "minimax zp ev clock b color 0 alpha beta isMaximizing currentPV boardHash deadline env
       = (\<lparr>sr_score = (if isMaximizing then ev b color else - ev b color),
           sr_bestMove = None, sr_pv = currentPV, sr_nodes = 1, sr_timeout = False\<rparr>, env)"
  using assms by (subst minimax.simps) (auto simp: timeoutCheck_one)

lemma minimax_game_over:
  assumes "ttProbe (transpositionTable env) boardHash (Suc d) alpha beta = None"
    and "generateLegalMoves b (if isMaximizing then color else negate color) = []"
    and "generateLegalMoves b (negate (if isMaximizing then color else negate color)) = []"
  shows "minimax zp ev clock b color (Suc d) alpha beta isMaximizing currentPV boardHash deadline env
       = (\<lparr>sr_score = (if isMaximizing then ev b color else - ev b color),
           sr_bestMove = None, sr_pv = currentPV @ [''pass''], sr_nodes = 1,
           sr_timeout = False\<rparr>, env)"
  using assms by (subst minimax.simps) (auto simp: timeoutCheck_one)

lemma minimax_pass:
  assumes "ttProbe (transpositionTable env) boardHash (Suc d) alpha beta = None"
    and "generateLegalMoves b (if isMaximizing then color else negate color) = []"
    and "generateLegalMoves b (negate (if isMaximizing then color else negate color)) \<noteq> []"
  shows "minimax zp ev clock b color (Suc d) alpha beta isMaximizing currentPV boardHash deadline env
       = (case minimax zp ev clock b color d alpha beta (\<not> isMaximizing)
                 (currentPV @ [''pass'']) boardHash deadline env of
            (result, env) \<Rightarrow>
              (\<lparr>sr_score = sr_score result, sr_bestMove = None, sr_pv = sr_pv result,
                sr_nodes = 1 + sr_nodes result, sr_timeout = False\<rparr>, env))"
  using assms by (subst minimax.simps) (auto simp: timeoutCheck_one)

lemma minimax_expand:
  assumes "ttProbe (transpositionTable env) boardHash (Suc d) alpha beta = None"
    and "cc = (if isMaximizing then color else negate color)"
    and "generateLegalMoves b cc \<noteq> []"
  shows "minimax zp ev clock b color (Suc d) alpha beta isMaximizing currentPV boardHash deadline env
       = (case moveLoop zp ev clock b color d isMaximizing currentPV boardHash deadline
                 (orderMoves b (generateLegalMoves b cc) cc)
                 \<lparr>ls_bestMove = None,
                  ls_bestScore = (if isMaximizing then - INFINITY else INFINITY),
                  ls_bestPV = currentPV, ls_alpha = alpha, ls_beta = beta, ls_nodes = 1\<rparr> env of
            (Inl timedOutResult, env) \<Rightarrow> (timedOutResult, env)
          | (Inr ls, env) \<Rightarrow>
              (\<lparr>sr_score = ls_bestScore ls, sr_bestMove = ls_bestMove ls,
                sr_pv = ls_bestPV ls, sr_nodes = ls_nodes ls, sr_timeout = False\<rparr>,
               ttStore boardHash (Suc d) (ls_bestScore ls) alpha (ls_beta ls) (ls_bestMove ls) env))"
  using assms by (subst minimax.simps) (auto simp: timeoutCheck_one Let_def)

lemma minimax_cases:
  obtains (hit) ttEntry where "ttProbe (transpositionTable env) boardHash depth alpha beta = Some ttEntry"
  | (leaf) "ttProbe (transpositionTable env) boardHash depth alpha beta = None" "depth = 0"
  | (game_over) d where "ttProbe (transpositionTable env) boardHash depth alpha beta = None"
      "depth = Suc d"
      "generateLegalMoves b (if isMaximizing then color else negate color) = []"
      "generateLegalMoves b (negate (if isMaximizing then color else negate color)) = []"
  | (pass) d where "ttProbe (transpositionTable env) boardHash depth alpha beta = None"
      "depth = Suc d"
      "generateLegalMoves b (if isMaximizing then color else negate color) = []"
      "generateLegalMoves b (negate (if isMaximizing then color else negate color)) \<noteq> []"
  | (expand) d where "ttProbe (transpositionTable env) boardHash depth alpha beta = None"
      "depth = Suc d"
      "generateLegalMoves b (if isMaximizing then color else negate color) \<noteq> []"
  by (cases "ttProbe (transpositionTable env) boardHash depth alpha beta"; cases depth) blast+

lemma ttStore_clock: "clockReads (ttStore h d s a be m env) = clockReads env"
  by (simp add: ttStore_def Let_def)

lemma moveLoop_no_timeout:
  assumes H: "\<And>b alpha beta m pv h env.
      \<not> sr_timeout (fst (minimax zp ev clock b color d alpha beta m pv h deadline env)) \<and>
      clockReads (snd (minimax zp ev clock b color d alpha beta m pv h deadline env))
        = clockReads env"
  shows "(\<exists>ls'. fst (moveLoop zp ev clock b color d isMaximizing currentPV boardHash deadline
                       moves ls env) = Inr ls') \<and>
         clockReads (snd (moveLoop zp ev clock b color d isMaximizing currentPV boardHash deadline
                       moves ls env)) = clockReads env"
proof (induction moves arbitrary: ls env)
  case Nil
  show ?case by simp
next
  case (Cons move rest)
  let ?cc = "if isMaximizing then color else negate color"
  let ?h = "case move of None \<Rightarrow> boardHash
            | Some rc \<Rightarrow> updateHash zp boardHash b rc ?cc (getFlippedPositions b move ?cc)"
  let ?call = "minimax zp ev clock (mr_board (applyMove b move ?cc)) color d (ls_alpha ls)
                 (ls_beta ls) (\<not> isMaximizing) (currentPV @ [moveToAlgebraic move]) ?h
                 deadline env"
  obtain result env1 where c: "?call = (result, env1)" by (cases ?call)
  from H[of "mr_board (applyMove b move ?cc)" "ls_alpha ls" "ls_beta ls" "\<not> isMaximizing"
           "currentPV @ [moveToAlgebraic move]" ?h env] c
  have nt: "\<not> sr_timeout result" and ck: "clockReads env1 = clockReads env"
    by (simp_all add: c)
  show ?case
    using Cons.IH[of "updateBest isMaximizing move result (ls_nodes ls + sr_nodes result) ls" env1]
    by (simp add: Let_def c nt ck)
qed

lemma minimax_no_timeout:
  "\<not> sr_timeout (fst (minimax zp ev clock b color depth alpha beta isMaximizing currentPV
                          boardHash deadline env)) \<and>
   clockReads (snd (minimax zp ev clock b color depth alpha beta isMaximizing currentPV
                          boardHash deadline env)) = clockReads env"
proof (induction depth arbitrary: b alpha beta isMaximizing currentPV boardHash env)
  case 0
  show ?case
    by (cases "ttProbe (transpositionTable env) boardHash 0 alpha beta")
       (simp_all add: minimax_leaf minimax_hit)
next
  case (Suc d)
  show ?case
  proof (cases rule: minimax_cases[where env=env and boardHash=boardHash and depth="Suc d" and alpha=alpha
        and beta=beta and b=b and isMaximizing=isMaximizing and color=color])
    case (hit ttEntry)
    then show ?thesis by (simp add: minimax_hit)
  next
    case leaf
    then show ?thesis by simp
  next
    case (game_over d')
    then show ?thesis by (simp add: minimax_game_over)
  next
    case (pass d')
    then show ?thesis
      using Suc.IH[of b alpha beta "\<not> isMaximizing" "currentPV @ [''pass'']" boardHash env]
      by (simp add: minimax_pass case_prod_beta)
  next
    case (expand d')
    then have d': "d' = d" by simp
    define cc where "cc = (if isMaximizing then color else negate color)"
    define ls0 where "ls0 = \<lparr>ls_bestMove = None,
                ls_bestScore = (if isMaximizing then - INFINITY else INFINITY),
                ls_bestPV = currentPV, ls_alpha = alpha, ls_beta = beta, ls_nodes = 1\<rparr>"
    let ?ml = "moveLoop zp ev clock b color d isMaximizing currentPV boardHash deadline
                 (orderMoves b (generateLegalMoves b cc) cc) ls0 env"
    have "(\<exists>ls'. fst ?ml = Inr ls') \<and> clockReads (snd ?ml) = clockReads env"
      by (rule moveLoop_no_timeout[OF Suc.IH])
    then obtain ls' envL where ml: "?ml = (Inr ls', envL)" and ck: "clockReads envL = clockReads env"
      by (cases ?ml) auto
    from expand(1,3) have pr: "ttProbe (transpositionTable env) boardHash (Suc d) alpha beta = None"
      and mv: "generateLegalMoves b cc \<noteq> []" by (simp_all add: cc_def)
    show ?thesis
      unfolding minimax_expand[OF pr cc_def mv] ls0_def[symmetric] ml
      by (simp add: ttStore_clock ck)
  qed
qed

text \<open>
  Claim C2. With a deadline, \<open>minimax\<close> is claimed to compare the clock with the deadline
  at a fixed node-count interval and, once the deadline has passed, to unwind at once with
  a timeout flag that every caller passes on. The counter tested,
  \<^verbatim>\<open>nodes % 1024 === 0\<close>, is the local \<^verbatim>\<open>let nodes = 1\<close> of the call: the test is false in
  every call, the clock is never read, and no call reports a timeout, whatever the
  deadline and the clock.
\<close>

theorem minimax_never_times_out:
  "sr_timeout (fst (minimax zp ev clock b color depth alpha beta isMaximizing currentPV
                      boardHash deadline env)) = False \<and>
   clockReads (snd (minimax zp ev clock b color depth alpha beta isMaximizing currentPV
                      boardHash deadline env)) = clockReads env"
  using minimax_no_timeout[of zp ev clock b color depth alpha beta isMaximizing currentPV
          boardHash deadline env]
  by simp

lemma set_insertSorted: "set (insertSorted cmp x ys) = insert x (set ys)"
  by (induction ys) auto

lemma set_stableSort: "set (stableSort cmp xs) = set xs"
proof -
  have "set (foldl (\<lambda>sorted x. insertSorted cmp x sorted) acc xs) = set acc \<union> set xs" for acc
    by (induction xs arbitrary: acc) (auto simp: set_insertSorted)
  then show ?thesis by (simp add: stableSort_def)
qed

lemma set_orderMoves: "set (orderMoves b moves color) = set moves"
  by (simp add: orderMoves_def set_stableSort)

lemma updateBest_bestMove:
  "ls_bestMove (updateBest isMaximizing move result nodes ls) \<in> {ls_bestMove ls, move}"
  by (simp add: updateBest_def Let_def)

lemma moveLoop_bestMove:
  "fst (moveLoop zp ev clock b color d isMaximizing currentPV boardHash deadline moves ls env)
     = Inr ls' \<Longrightarrow> ls_bestMove ls' \<in> insert (ls_bestMove ls) (set moves)"
proof (induction moves arbitrary: ls env)
  case Nil
  then show ?case by simp
next
  case (Cons move rest)
  let ?cc = "if isMaximizing then color else negate color"
  let ?h = "case move of None \<Rightarrow> boardHash
            | Some rc \<Rightarrow> updateHash zp boardHash b rc ?cc (getFlippedPositions b move ?cc)"
  let ?call = "minimax zp ev clock (mr_board (applyMove b move ?cc)) color d (ls_alpha ls)
                 (ls_beta ls) (\<not> isMaximizing) (currentPV @ [moveToAlgebraic move]) ?h
                 deadline env"
  obtain result env1 where c: "?call = (result, env1)" by (cases ?call)
  let ?ls1 = "updateBest isMaximizing move result (ls_nodes ls + sr_nodes result) ls"
  from updateBest_bestMove[of isMaximizing move result "ls_nodes ls + sr_nodes result" ls]
  have u: "ls_bestMove ?ls1 \<in> insert (ls_bestMove ls) (set (move # rest))" by auto
  show ?case
  proof (cases "sr_timeout result")
    case True
    with Cons.prems c show ?thesis by (simp add: Let_def)
  next
    case nt: False
    show ?thesis
    proof (cases "ls_beta ?ls1 \<le> ls_alpha ?ls1")
      case True
      with Cons.prems c nt have "ls' = ?ls1" by (simp add: Let_def)
      with u show ?thesis by simp
    next
      case False
      with Cons.prems c nt
      have "fst (moveLoop zp ev clock b color d isMaximizing currentPV boardHash deadline rest
                   ?ls1 env1) = Inr ls'"
        by (simp add: Let_def)
      from Cons.IH[OF this] u show ?thesis by auto
    qed
  qed
qed

lemma minimax_expand_result:
  assumes pr: "ttProbe (transpositionTable env) boardHash (Suc d) alpha beta = None"
    and cc: "cc = (if isMaximizing then color else negate color)"
    and mv: "generateLegalMoves b cc \<noteq> []"
    and ls0: "ls0 = \<lparr>ls_bestMove = None,
                ls_bestScore = (if isMaximizing then - INFINITY else INFINITY),
                ls_bestPV = currentPV, ls_alpha = alpha, ls_beta = beta, ls_nodes = 1\<rparr>"
  obtains ls' envL where
    "moveLoop zp ev clock b color d isMaximizing currentPV boardHash deadline
       (orderMoves b (generateLegalMoves b cc) cc) ls0 env = (Inr ls', envL)"
    "minimax zp ev clock b color (Suc d) alpha beta isMaximizing currentPV boardHash deadline env
     = (\<lparr>sr_score = ls_bestScore ls', sr_bestMove = ls_bestMove ls',
          sr_pv = ls_bestPV ls', sr_nodes = ls_nodes ls', sr_timeout = False\<rparr>,
        ttStore boardHash (Suc d) (ls_bestScore ls') alpha (ls_beta ls') (ls_bestMove ls') envL)"
proof -
  let ?ml = "moveLoop zp ev clock b color d isMaximizing currentPV boardHash deadline
       (orderMoves b (generateLegalMoves b cc) cc) ls0 env"
  have "(\<exists>ls'. fst ?ml = Inr ls') \<and> clockReads (snd ?ml) = clockReads env"
    by (rule moveLoop_no_timeout) (rule minimax_no_timeout)
  then obtain ls' envL where ml: "?ml = (Inr ls', envL)" by (cases ?ml) auto
  have "minimax zp ev clock b color (Suc d) alpha beta isMaximizing currentPV boardHash deadline env
     = (\<lparr>sr_score = ls_bestScore ls', sr_bestMove = ls_bestMove ls',
          sr_pv = ls_bestPV ls', sr_nodes = ls_nodes ls', sr_timeout = False\<rparr>,
        ttStore boardHash (Suc d) (ls_bestScore ls') alpha (ls_beta ls') (ls_bestMove ls') envL)"
    unfolding minimax_expand[OF pr cc mv] ls0[symmetric] ml by simp
  with ml show thesis by (rule that)
qed

lemma minimax_expand_bestMove:
  assumes pr: "ttProbe (transpositionTable env) boardHash (Suc d) alpha beta = None"
    and cc: "cc = (if isMaximizing then color else negate color)"
    and mv: "generateLegalMoves b cc \<noteq> []"
  shows "sr_bestMove (fst (minimax zp ev clock b color (Suc d) alpha beta isMaximizing currentPV
                             boardHash deadline env))
           \<in> insert None (set (generateLegalMoves b cc))"
proof -
  define ls0 where "ls0 = \<lparr>ls_bestMove = None,
                ls_bestScore = (if isMaximizing then - INFINITY else INFINITY),
                ls_bestPV = currentPV, ls_alpha = alpha, ls_beta = beta, ls_nodes = 1\<rparr>"
  from minimax_expand_result[OF pr cc mv ls0_def, of zp ev clock deadline]
  obtain ls' envL where ml: "moveLoop zp ev clock b color d isMaximizing currentPV boardHash deadline
       (orderMoves b (generateLegalMoves b cc) cc) ls0 env = (Inr ls', envL)"
    and r: "minimax zp ev clock b color (Suc d) alpha beta isMaximizing currentPV boardHash deadline env
     = (\<lparr>sr_score = ls_bestScore ls', sr_bestMove = ls_bestMove ls',
          sr_pv = ls_bestPV ls', sr_nodes = ls_nodes ls', sr_timeout = False\<rparr>,
        ttStore boardHash (Suc d) (ls_bestScore ls') alpha (ls_beta ls') (ls_bestMove ls') envL)"
    by blast
  have "fst (moveLoop zp ev clock b color d isMaximizing currentPV boardHash deadline
       (orderMoves b (generateLegalMoves b cc) cc) ls0 env) = Inr ls'"
    by (simp add: ml)
  from moveLoop_bestMove[OF this]
  have "ls_bestMove ls' \<in> insert None (set (generateLegalMoves b cc))"
    by (simp add: set_orderMoves ls0_def)
  then show ?thesis by (simp add: r)
qed

lemma depthBounded_update:
  "depthBounded D table \<Longrightarrow> te_depth e \<le> D \<Longrightarrow> depthBounded D (AList.update k e table)"
  by (induction table) (auto simp: depthBounded_def)

lemma depthBounded_ttStore:
  "depthBounded D (transpositionTable env) \<Longrightarrow> d \<le> D \<Longrightarrow>
   depthBounded D (transpositionTable (ttStore h d s a be m env))"
  by (simp add: ttStore_def Let_def depthBounded_update)

lemma depthBounded_mono: "depthBounded D table \<Longrightarrow> D \<le> D' \<Longrightarrow> depthBounded D' table"
  by (auto simp: depthBounded_def list_all_iff)

lemma depthBounded_miss:
  assumes "depthBounded D table" "D < depth"
  shows "ttProbe table boardHash depth alpha beta = None"
proof (cases "map_of table boardHash")
  case None
  then show ?thesis by (simp add: ttProbe_def)
next
  case (Some e)
  then have "(boardHash, e) \<in> set table" by (rule map_of_SomeD)
  with assms have "te_depth e < depth" by (auto simp: depthBounded_def list_all_iff)
  with Some show ?thesis by (simp add: ttProbe_def)
qed

lemma moveLoop_depthBounded:
  assumes H: "\<And>b alpha beta m pv h env. depthBounded D (transpositionTable env) \<Longrightarrow>
      depthBounded D (transpositionTable
        (snd (minimax zp ev clock b color d alpha beta m pv h deadline env)))"
  shows "depthBounded D (transpositionTable env) \<Longrightarrow>
         depthBounded D (transpositionTable
           (snd (moveLoop zp ev clock b color d isMaximizing currentPV boardHash deadline
                   moves ls env)))"
proof (induction moves arbitrary: ls env)
  case Nil
  then show ?case by simp
next
  case (Cons move rest)
  let ?cc = "if isMaximizing then color else negate color"
  let ?h = "case move of None \<Rightarrow> boardHash
            | Some rc \<Rightarrow> updateHash zp boardHash b rc ?cc (getFlippedPositions b move ?cc)"
  let ?call = "minimax zp ev clock (mr_board (applyMove b move ?cc)) color d (ls_alpha ls)
                 (ls_beta ls) (\<not> isMaximizing) (currentPV @ [moveToAlgebraic move]) ?h
                 deadline env"
  obtain result env1 where c: "?call = (result, env1)" by (cases ?call)
  from H[OF Cons.prems, of "mr_board (applyMove b move ?cc)" "ls_alpha ls" "ls_beta ls"
           "\<not> isMaximizing" "currentPV @ [moveToAlgebraic move]" ?h] c
  have b1: "depthBounded D (transpositionTable env1)" by simp
  show ?case
    using Cons.IH[OF b1, of "updateBest isMaximizing move result (ls_nodes ls + sr_nodes result) ls"] b1
    by (simp add: Let_def c)
qed

lemma minimax_depthBounded:
  "depthBounded D (transpositionTable env) \<Longrightarrow> depth \<le> D \<Longrightarrow>
   depthBounded D (transpositionTable
     (snd (minimax zp ev clock b color depth alpha beta isMaximizing currentPV boardHash
             deadline env)))"
proof (induction depth arbitrary: b alpha beta isMaximizing currentPV boardHash env)
  case 0
  then show ?case
    by (cases "ttProbe (transpositionTable env) boardHash 0 alpha beta")
       (simp_all add: minimax_leaf minimax_hit)
next
  case (Suc d)
  show ?case
  proof (cases rule: minimax_cases[where env=env and boardHash=boardHash and depth="Suc d"
        and alpha=alpha and beta=beta and b=b and isMaximizing=isMaximizing and color=color])
    case (hit ttEntry)
    with Suc.prems show ?thesis by (simp add: minimax_hit)
  next
    case leaf
    then show ?thesis by simp
  next
    case (game_over d')
    with Suc.prems show ?thesis by (simp add: minimax_game_over)
  next
    case (pass d')
    with Suc.prems show ?thesis
      using Suc.IH[of env b alpha beta "\<not> isMaximizing" "currentPV @ [''pass'']" boardHash]
      by (simp add: minimax_pass case_prod_beta)
  next
    case (expand d')
    define cc where "cc = (if isMaximizing then color else negate color)"
    define ls0 where "ls0 = \<lparr>ls_bestMove = None,
                ls_bestScore = (if isMaximizing then - INFINITY else INFINITY),
                ls_bestPV = currentPV, ls_alpha = alpha, ls_beta = beta, ls_nodes = 1\<rparr>"
    from expand have pr: "ttProbe (transpositionTable env) boardHash (Suc d) alpha beta = None"
      and mv: "generateLegalMoves b cc \<noteq> []" by (simp_all add: cc_def)
    from minimax_expand_result[OF pr cc_def mv ls0_def, of zp ev clock deadline]
    obtain ls' envL where ml: "moveLoop zp ev clock b color d isMaximizing currentPV boardHash deadline
         (orderMoves b (generateLegalMoves b cc) cc) ls0 env = (Inr ls', envL)"
      and r: "minimax zp ev clock b color (Suc d) alpha beta isMaximizing currentPV boardHash deadline env
       = (\<lparr>sr_score = ls_bestScore ls', sr_bestMove = ls_bestMove ls',
            sr_pv = ls_bestPV ls', sr_nodes = ls_nodes ls', sr_timeout = False\<rparr>,
          ttStore boardHash (Suc d) (ls_bestScore ls') alpha (ls_beta ls') (ls_bestMove ls') envL)"
      by blast
    have IH': "\<And>b alpha beta m pv h env. depthBounded D (transpositionTable env) \<Longrightarrow>
      depthBounded D (transpositionTable
        (snd (minimax zp ev clock b color d alpha beta m pv h deadline env)))"
      using Suc.IH Suc.prems(2) by simp
    have "depthBounded D (transpositionTable
           (snd (moveLoop zp ev clock b color d isMaximizing currentPV boardHash deadline
                   (orderMoves b (generateLegalMoves b cc) cc) ls0 env)))"
      by (rule moveLoop_depthBounded[OF IH' Suc.prems(1)])
    then have "depthBounded D (transpositionTable envL)" by (simp add: ml)
    then show ?thesis
      by (simp add: r depthBounded_ttStore Suc.prems(2))
  qed
qed

lemma dateNow_table: "transpositionTable (snd (dateNow clock env)) = transpositionTable env"
  by (simp add: dateNow_def)

lemma deepen_bestMove:
  assumes mv: "generateLegalMoves b color \<noteq> []"
  shows "sorted_wrt (<) ds \<Longrightarrow> \<forall>d \<in> set ds. D < d \<Longrightarrow>
         depthBounded D (transpositionTable env) \<Longrightarrow>
         ds_bestMove st \<in> insert None (set (generateLegalMoves b color)) \<Longrightarrow>
         ds_bestMove (fst (deepen zp ev clock b color startTime timeLimitMs ds st env))
           \<in> insert None (set (generateLegalMoves b color))"
proof (induction ds arbitrary: st env D)
  case Nil
  then show ?case by simp
next
  case (Cons currentDepth rest)
  obtain now env0 where dn: "dateNow clock env = (now, env0)" by (cases "dateNow clock env")
  with dateNow_table[of clock env] have t0: "transpositionTable env0 = transpositionTable env"
    by simp
  show ?case
  proof (cases "now - startTime \<ge> timeLimitMs")
    case True
    with Cons.prems dn show ?thesis by simp
  next
    case running: False
    let ?call = "minimax zp ev clock b color currentDepth (- INFINITY) INFINITY True []
                   (hashBoard zp b color) (Some (startTime + timeLimitMs)) env0"
    obtain result env1 where c: "?call = (result, env1)" by (cases ?call)
    from Cons.prems(2) have gt: "D < currentDepth" by simp
    then obtain d where d: "currentDepth = Suc d" by (cases currentDepth) auto
    have miss: "ttProbe (transpositionTable env0) (hashBoard zp b color) (Suc d)
                  (- INFINITY) INFINITY = None"
      using depthBounded_miss[OF Cons.prems(3) gt] by (simp add: t0 d)
    have "sr_bestMove (fst ?call) \<in> insert None (set (generateLegalMoves b color))"
      unfolding d by (rule minimax_expand_bestMove[OF miss _ mv]) simp
    then have bm: "sr_bestMove result \<in> insert None (set (generateLegalMoves b color))"
      by (simp add: c)
    have "depthBounded currentDepth (transpositionTable env0)"
      using Cons.prems(3) gt by (simp add: t0 depthBounded_mono)
    from minimax_depthBounded[OF this order_refl, of zp ev clock b color "- INFINITY" INFINITY
           True "[]" "hashBoard zp b color" "Some (startTime + timeLimitMs)"]
    have b1: "depthBounded currentDepth (transpositionTable env1)" by (simp add: c)
    from Cons.prems(1) have srt: "sorted_wrt (<) rest" and all: "\<forall>d \<in> set rest. currentDepth < d"
      by simp_all
    show ?thesis
    proof (cases "sr_timeout result")
      case True
      with Cons.prems dn running c show ?thesis by (simp add: Let_def)
    next
      case False
      let ?st = "\<lparr>ds_nodes = ds_nodes st + sr_nodes result, ds_bestMove = sr_bestMove result,
                  ds_bestScore = sr_score result, ds_pv = sr_pv result,
                  ds_depthSearched = currentDepth\<rparr>"
      from bm have "ds_bestMove ?st \<in> insert None (set (generateLegalMoves b color))" by simp
      from Cons.IH[OF srt all b1 this] dn running c False show ?thesis
        by (simp add: Let_def)
    qed
  qed
qed

lemma depths_sorted: "sorted_wrt (<) (map nat [1..n]) \<and> (\<forall>d \<in> set (map nat [1..n]). 0 < d)"
proof -
  have "sorted_wrt (\<lambda>x y. nat x < nat y) [1..n]"
    by (rule sorted_wrt_mono_rel[OF _ sorted_wrt_upto]) auto
  then show ?thesis by (auto simp: sorted_wrt_map)
qed

lemma engineSearch_bestMove:
  "er_bestMove (fst (engineSearch zp ev clock b color options freshEnv))
     \<in> insert None (set (generateLegalMoves b color)) \<and>
   er_bestMoveAlgebraic (fst (engineSearch zp ev clock b color options freshEnv))
     = moveToAlgebraic (er_bestMove (fst (engineSearch zp ev clock b color options freshEnv)))"
proof (cases "generateLegalMoves b color = []")
  case True
  then show ?thesis
    by (simp add: engineSearch_def Let_def case_prod_beta moveToAlgebraic_def)
next
  case False
  define depth where "depth = (case so_depth options of None \<Rightarrow> 6 | Some d \<Rightarrow> d)"
  define limit where "limit = (case so_timeLimitMs options of None \<Rightarrow> 2000 | Some t \<Rightarrow> t)"
  obtain startTime env0 where dn: "dateNow clock freshEnv = (startTime, env0)"
    by (cases "dateNow clock freshEnv")
  with dateNow_table[of clock freshEnv] have "transpositionTable env0 = []"
    by (simp add: freshEnv_def)
  then have b0: "depthBounded 0 (transpositionTable env0)" by (simp add: depthBounded_def)
  let ?st0 = "\<lparr>ds_nodes = 0, ds_bestMove = None, ds_bestScore = - INFINITY, ds_pv = [],
               ds_depthSearched = 0\<rparr>"
  have st0: "ds_bestMove ?st0 \<in> insert None (set (generateLegalMoves b color))" by simp
  from depths_sorted[of depth]
  have s: "sorted_wrt (<) (map nat [1..depth])" and a: "\<forall>d \<in> set (map nat [1..depth]). 0 < d"
    by simp_all
  from deepen_bestMove[OF False s a b0 st0, of zp ev clock startTime limit]
  show ?thesis
    using False
    by (simp add: engineSearch_def Let_def case_prod_beta dn depth_def limit_def)
qed

text \<open>
  Claim C5. \<open>engineSearch\<close> on \<open>createStartingBoard\<close>, Black to move, depth 2, time limit
  1000 ms, is claimed to return one of c4, d3, e6, f5. \<open>createStartingBoard\<close> puts Black
  on d4 and e5 and White on e4 and d5 (the repository's own test expects the opposite
  colours), so Black's legal moves there are e3, f4, c5 and d6, and the engine, started
  with an empty table, returns one of those, or a pass when no depth completes: never one
  of the four labels of the claim, whatever the evaluator, the hash table and the clock.
\<close>

theorem engineSearch_opening:
  "\<forall>zp ev clock.
     er_bestMoveAlgebraic (fst (engineSearch zp ev clock createStartingBoard Black
        \<lparr>so_depth = Some 2, so_timeLimitMs = Some 1000\<rparr> freshEnv))
       \<in> {''pass'', ''e3'', ''f4'', ''c5'', ''d6''}
     \<and> er_bestMoveAlgebraic (fst (engineSearch zp ev clock createStartingBoard Black
        \<lparr>so_depth = Some 2, so_timeLimitMs = Some 1000\<rparr> freshEnv))
       \<notin> {''c4'', ''d3'', ''e6'', ''f5''}"
proof (intro allI)
  fix zp ev clock
  let ?r = "fst (engineSearch zp ev clock createStartingBoard Black
              \<lparr>so_depth = Some 2, so_timeLimitMs = Some 1000\<rparr> freshEnv)"
  have legal: "generateLegalMoves createStartingBoard Black
                 = [Some (2, 4), Some (3, 5), Some (4, 2), Some (5, 3)]"
    by code_simp
  have labels: "moveToAlgebraic None = ''pass''" "moveToAlgebraic (Some (2, 4)) = ''e3''"
    "moveToAlgebraic (Some (3, 5)) = ''f4''" "moveToAlgebraic (Some (4, 2)) = ''c5''"
    "moveToAlgebraic (Some (5, 3)) = ''d6''"
    by code_simp+
  from engineSearch_bestMove[of zp ev clock createStartingBoard Black
         "\<lparr>so_depth = Some 2, so_timeLimitMs = Some 1000\<rparr>"]
  have "er_bestMove ?r \<in> {None, Some (2, 4), Some (3, 5), Some (4, 2), Some (5, 3)}"
    and "er_bestMoveAlgebraic ?r = moveToAlgebraic (er_bestMove ?r)"
    by (simp_all add: legal)
  then have "er_bestMoveAlgebraic ?r \<in> {''pass'', ''e3'', ''f4'', ''c5'', ''d6''}"
    using labels by auto
  then show "er_bestMoveAlgebraic ?r \<in> {''pass'', ''e3'', ''f4'', ''c5'', ''d6''}
     \<and> er_bestMoveAlgebraic ?r \<notin> {''c4'', ''d3'', ''e6'', ''f5''}"
    by auto
qed
























end
